theory Spec2Isabelle
  imports Complex_Main "HOL-Library.Word" "HOL-Library.AList"
begin

section \<open>Trigger orders: the order store and the trigger test\<close>

text \<open>
  The order store is the SQL table \<open>trigger_orders\<close>; a table is the list of its rows.
  JavaScript numbers that hold prices are taken as reals (the comparison of two finite
  doubles is the comparison of the reals they denote); identifiers and millisecond
  timestamps are integers.
\<close>

text \<open>
  A JavaScript string is the list of its UTF-16 code units, and \<open>length\<close> is its
  \<open>.length\<close>; \<open>js\<close> writes a literal of ASCII characters.
\<close>

type_synonym jsstring = "16 word list"

definition js :: "string \<Rightarrow> jsstring" where
  "js s = map (\<lambda>ch. word_of_nat (of_char ch)) s"

datatype Network = Solana | Base
datatype TriggerType = Price | Marketcap
datatype TriggerCondition = Above | Below
datatype OrderSide = Buy | Sell
datatype OrderStatus = Active | Triggered | Executed | Failed | Cancelled
datatype AmountType = Fixed | Percentage

record TriggerOrder =
  order_id :: int
  telegramUserId :: int
  chatId :: int
  network :: Network
  tokenAddress :: jsstring
  tokenSymbol :: jsstring
  side :: OrderSide
  triggerType :: TriggerType
  triggerCondition :: TriggerCondition
  triggerValue :: real
  amount :: jsstring
  amountType :: AmountType
  slippageBps :: int
  status :: OrderStatus
  priceAtCreation :: real
  createdAt :: int
  triggeredAt :: "int option"
  executedAt :: "int option"
  txHash :: "jsstring option"
  executionPrice :: "real option"
  error :: "jsstring option"

type_synonym trigger_orders = "TriggerOrder list"

text \<open>\<open>SELECT * FROM trigger_orders WHERE id = ?\<close>\<close>

definition getTriggerOrder :: "trigger_orders \<Rightarrow> int \<Rightarrow> TriggerOrder option" where
  "getTriggerOrder db i = find (\<lambda>r. order_id r = i) db"

text \<open>\<open>SELECT ... WHERE status = 'active' ORDER BY created_at ASC\<close>\<close>

definition getActiveTriggerOrders :: "trigger_orders \<Rightarrow> TriggerOrder list" where
  "getActiveTriggerOrders db = sort_key createdAt (filter (\<lambda>r. status r = Active) db)"

text \<open>
  \<open>UPDATE trigger_orders SET status = 'triggered', triggered_at = CURRENT_TIMESTAMP
  WHERE id = ?\<close>: the only condition of the statement is the row id.
\<close>

definition markOrderTriggered :: "int \<Rightarrow> int \<Rightarrow> trigger_orders \<Rightarrow> trigger_orders" where
  "markOrderTriggered now i db =
     map (\<lambda>r. if order_id r = i then r\<lparr>status := Triggered, triggeredAt := Some now\<rparr> else r) db"

definition markOrderExecuted ::
  "int \<Rightarrow> int \<Rightarrow> jsstring \<Rightarrow> real \<Rightarrow> trigger_orders \<Rightarrow> trigger_orders" where
  "markOrderExecuted now i tx price db =
     map (\<lambda>r. if order_id r = i
               then r\<lparr>status := Executed, executedAt := Some now,
                      txHash := Some tx, executionPrice := Some price\<rparr>
               else r) db"

definition markOrderFailed :: "int \<Rightarrow> jsstring \<Rightarrow> trigger_orders \<Rightarrow> trigger_orders" where
  "markOrderFailed i err db =
     map (\<lambda>r. if order_id r = i then r\<lparr>status := Failed, error := Some err\<rparr> else r) db"

text \<open>
  \<open>UPDATE trigger_orders SET status = 'cancelled'
  WHERE id = ? AND telegram_user_id = ? AND status = 'active'\<close>; the function returns
  \<open>result.changes > 0\<close>, the number of rows the statement matched.
\<close>

definition cancel_matches :: "int \<Rightarrow> int \<Rightarrow> TriggerOrder \<Rightarrow> bool" where
  "cancel_matches i u r \<longleftrightarrow> order_id r = i \<and> telegramUserId r = u \<and> status r = Active"

definition cancelOrder :: "int \<Rightarrow> int \<Rightarrow> trigger_orders \<Rightarrow> bool \<times> trigger_orders" where
  "cancelOrder i u db =
     (0 < length (filter (cancel_matches i u) db),
      map (\<lambda>r. if cancel_matches i u r then r\<lparr>status := Cancelled\<rparr> else r) db)"

definition cancelAllUserOrders :: "int \<Rightarrow> trigger_orders \<Rightarrow> nat \<times> trigger_orders" where
  "cancelAllUserOrders u db =
     (length (filter (\<lambda>r. telegramUserId r = u \<and> status r = Active) db),
      map (\<lambda>r. if telegramUserId r = u \<and> status r = Active
               then r\<lparr>status := Cancelled\<rparr> else r) db)"

text \<open>The trigger test of the scheduler.\<close>

fun checkTriggerCondition :: "real \<Rightarrow> real \<Rightarrow> TriggerCondition \<Rightarrow> bool" where
  "checkTriggerCondition currentValue targetValue Above = (currentValue \<ge> targetValue)"
| "checkTriggerCondition currentValue targetValue Below = (currentValue \<le> targetValue)"

text \<open>
  The body of the loop of \<open>checkPricesAndExecute\<close> over the active orders, up to the
  decision to execute: \<open>priceData\<close> is the entry of the price map for the token of the
  order (price and market cap), absent when the fetch failed; a current value of 0 is
  skipped like an absent entry.
\<close>

definition order_matches :: "(real \<times> real) option \<Rightarrow> TriggerOrder \<Rightarrow> bool" where
  "order_matches priceData order =
     (case priceData of
        None \<Rightarrow> False
      | Some (price, marketCap) \<Rightarrow>
          (let currentValue = (if triggerType order = Price then price else marketCap) in
           if currentValue = 0 then False
           else checkTriggerCondition currentValue (triggerValue order) (triggerCondition order)))"

section \<open>Byte buffers, hexadecimal text and colon-separated fields\<close>

text \<open>
  A Node \<open>Buffer\<close> is a list of bytes. The conversion \<open>'utf8'\<close> from a string to
  bytes writes a surrogate pair as the four bytes of its code point and a surrogate that
  is not part of a pair as the bytes \<open>EF BF BD\<close> of U+FFFD. The conversion from bytes to
  a string is the decoder of the Encoding Standard: a byte that cannot start or continue a
  sequence yields U+FFFD and decoding resumes at that byte. \<open>toWellFormed\<close> is the
  string method of that name.
\<close>

type_synonym byte = "8 word"
type_synonym buffer = "byte list"

definition is_high_surrogate :: "16 word \<Rightarrow> bool" where
  "is_high_surrogate u \<longleftrightarrow> 0xD800 \<le> unat u \<and> unat u \<le> 0xDBFF"

definition is_low_surrogate :: "16 word \<Rightarrow> bool" where
  "is_low_surrogate u \<longleftrightarrow> 0xDC00 \<le> unat u \<and> unat u \<le> 0xDFFF"

fun toWellFormed :: "jsstring \<Rightarrow> jsstring" where
  "toWellFormed [] = []"
| "toWellFormed (u # us) =
     (if is_high_surrogate u then
        (case us of
           [] \<Rightarrow> [0xFFFD]
         | v # vs \<Rightarrow>
             if is_low_surrogate v then u # v # toWellFormed vs
             else 0xFFFD # toWellFormed us)
      else if is_low_surrogate u then 0xFFFD # toWellFormed us
      else u # toWellFormed us)"

fun isWellFormed :: "jsstring \<Rightarrow> bool" where
  "isWellFormed [] = True"
| "isWellFormed (u # us) =
     (if is_high_surrogate u then
        (case us of
           [] \<Rightarrow> False
         | v # vs \<Rightarrow> is_low_surrogate v \<and> isWellFormed vs)
      else \<not> is_low_surrogate u \<and> isWellFormed us)"

definition byte_of :: "nat \<Rightarrow> byte" where
  "byte_of n = word_of_nat n"

definition unit_of :: "nat \<Rightarrow> 16 word" where
  "unit_of n = word_of_nat n"

fun utf8_encode :: "jsstring \<Rightarrow> buffer" where
  "utf8_encode [] = []"
| "utf8_encode (u # us) =
     (let n = unat u in
      if n < 0x80 then byte_of n # utf8_encode us
      else if n < 0x800 then
        byte_of (0xC0 + n div 64) # byte_of (0x80 + n mod 64) # utf8_encode us
      else if is_high_surrogate u then
        (case us of
           [] \<Rightarrow> [0xEF, 0xBF, 0xBD]
         | v # vs \<Rightarrow>
             if is_low_surrogate v then
               (let cp = 0x10000 + (n - 0xD800) * 1024 + (unat v - 0xDC00) in
                byte_of (0xF0 + cp div 262144) # byte_of (0x80 + cp div 4096 mod 64)
                  # byte_of (0x80 + cp div 64 mod 64) # byte_of (0x80 + cp mod 64)
                  # utf8_encode vs)
             else 0xEF # 0xBF # 0xBD # utf8_encode us)
      else if is_low_surrogate u then 0xEF # 0xBF # 0xBD # utf8_encode us
      else
        byte_of (0xE0 + n div 4096) # byte_of (0x80 + n div 64 mod 64)
          # byte_of (0x80 + n mod 64) # utf8_encode us)"

definition continuation :: "byte \<Rightarrow> bool" where
  "continuation b \<longleftrightarrow> 0x80 \<le> unat b \<and> unat b \<le> 0xBF"

fun utf8_decode :: "buffer \<Rightarrow> jsstring" where
  "utf8_decode [] = []"
| "utf8_decode (b0 # bs) =
     (let n0 = unat b0 in
      if n0 < 0x80 then unit_of n0 # utf8_decode bs
      else if 0xC2 \<le> n0 \<and> n0 \<le> 0xDF then
        (case bs of
           [] \<Rightarrow> [0xFFFD]
         | b1 # bs1 \<Rightarrow>
             if continuation b1
             then unit_of ((n0 - 0xC0) * 64 + (unat b1 - 0x80)) # utf8_decode bs1
             else 0xFFFD # utf8_decode bs)
      else if 0xE0 \<le> n0 \<and> n0 \<le> 0xEF then
        (case bs of
           [] \<Rightarrow> [0xFFFD]
         | b1 # bs1 \<Rightarrow>
             if (if n0 = 0xE0 then 0xA0 else 0x80) \<le> unat b1
                \<and> unat b1 \<le> (if n0 = 0xED then 0x9F else 0xBF)
             then
               (case bs1 of
                  [] \<Rightarrow> [0xFFFD]
                | b2 # bs2 \<Rightarrow>
                    if continuation b2
                    then unit_of (((n0 - 0xE0) * 64 + (unat b1 - 0x80)) * 64
                                      + (unat b2 - 0x80)) # utf8_decode bs2
                    else 0xFFFD # utf8_decode bs1)
             else 0xFFFD # utf8_decode bs)
      else if 0xF0 \<le> n0 \<and> n0 \<le> 0xF4 then
        (case bs of
           [] \<Rightarrow> [0xFFFD]
         | b1 # bs1 \<Rightarrow>
             if (if n0 = 0xF0 then 0x90 else 0x80) \<le> unat b1
                \<and> unat b1 \<le> (if n0 = 0xF4 then 0x8F else 0xBF)
             then
               (case bs1 of
                  [] \<Rightarrow> [0xFFFD]
                | b2 # bs2 \<Rightarrow>
                    if continuation b2 then
                      (case bs2 of
                         [] \<Rightarrow> [0xFFFD]
                       | b3 # bs3 \<Rightarrow>
                           if continuation b3 then
                             (let cp = (((n0 - 0xF0) * 64 + (unat b1 - 0x80)) * 64
                                         + (unat b2 - 0x80)) * 64 + (unat b3 - 0x80)
                              in unit_of (0xD800 + (cp - 0x10000) div 1024)
                                   # unit_of (0xDC00 + (cp - 0x10000) mod 1024)
                                   # utf8_decode bs3)
                           else 0xFFFD # utf8_decode bs2)
                    else 0xFFFD # utf8_decode bs1)
             else 0xFFFD # utf8_decode bs)
      else 0xFFFD # utf8_decode bs)"

definition hex_digit :: "nat \<Rightarrow> 16 word" where
  "hex_digit n = (if n < 10 then word_of_nat (48 + n) else word_of_nat (87 + n))"

definition hex_value :: "16 word \<Rightarrow> nat option" where
  "hex_value ch =
     (let k = unat ch in
      if 48 \<le> k \<and> k \<le> 57 then Some (k - 48)
      else if 97 \<le> k \<and> k \<le> 102 then Some (k - 87)
      else if 65 \<le> k \<and> k \<le> 70 then Some (k - 55)
      else None)"

text \<open>\<open>buf.toString('hex')\<close>: two lower-case digits per byte.\<close>

definition to_hex :: "buffer \<Rightarrow> jsstring" where
  "to_hex b = concat (map (\<lambda>w. [hex_digit (unat w div 16), hex_digit (unat w mod 16)]) b)"

text \<open>
  \<open>Buffer.from(s, 'hex')\<close>: pairs of hexadecimal digits are decoded from the left; the
  result is cut at the first pair that is not hexadecimal, and a trailing single
  character is dropped.
\<close>

fun from_hex :: "jsstring \<Rightarrow> buffer" where
  "from_hex (a # b # rest) =
     (case (hex_value a, hex_value b) of
        (Some x, Some y) \<Rightarrow> word_of_nat (16 * x + y) # from_hex rest
      | _ \<Rightarrow> [])"
| "from_hex _ = []"

text \<open>\<open>s.split(':')\<close> and \<open>fields.join(':')\<close>.\<close>

fun split_colon :: "jsstring \<Rightarrow> jsstring list" where
  "split_colon [] = [[]]"
| "split_colon (ch # cs) =
     (if ch = 0x3A then [] # split_colon cs
      else (case split_colon cs of f # fs \<Rightarrow> (ch # f) # fs | [] \<Rightarrow> [[ch]]))"

fun join_colon :: "jsstring list \<Rightarrow> jsstring" where
  "join_colon [] = []"
| "join_colon [x] = x"
| "join_colon (x # y # ys) = x @ 0x3A # join_colon (y # ys)"

text \<open>
  The decimal text of an integer, as a template literal prints a user id or a count (an
  integer of fewer than 22 digits, which JavaScript prints without an exponent).
\<close>

fun nat_toString :: "nat \<Rightarrow> jsstring" where
  "nat_toString n =
     (if n < 10 then [word_of_nat (48 + n)]
      else nat_toString (n div 10) @ [word_of_nat (48 + n mod 10)])"

declare nat_toString.simps [simp del]

definition number_toString :: "int \<Rightarrow> jsstring" where
  "number_toString i =
     (if i < 0 then 0x2D # nat_toString (nat (- i)) else nat_toString (nat i))"

section \<open>Cipher primitives\<close>

text \<open>
  The functions of Node's \<open>crypto\<close> module are parameters of the model. A decipher
  object is used in two steps, as in the source: \<open>update\<close> (together with the
  construction of the object and \<open>setAuthTag\<close>) and \<open>final\<close>; either step may throw,
  which is the value \<open>None\<close>. For AES-256-GCM the tag is verified by \<open>final\<close>.
  The library works on bytes: a string argument (a password, a plaintext) is converted
  with \<open>'utf8'\<close> on the way in, and the output encoding \<open>'utf8'\<close> of a decipher decodes
  the bytes of \<open>update\<close> and \<open>final\<close> as one stream (a sequence cut between the two
  is carried over).
\<close>

record crypto =
  pbkdf2Sync :: "buffer \<Rightarrow> buffer \<Rightarrow> nat \<Rightarrow> nat \<Rightarrow> buffer"
  gcm_encrypt :: "buffer \<Rightarrow> buffer \<Rightarrow> buffer \<Rightarrow> buffer \<times> buffer"
  gcm_update :: "buffer \<Rightarrow> buffer \<Rightarrow> buffer \<Rightarrow> buffer \<Rightarrow> buffer option"
  gcm_final :: "buffer \<Rightarrow> buffer \<Rightarrow> buffer \<Rightarrow> buffer \<Rightarrow> buffer option"
  cbc_encrypt :: "buffer \<Rightarrow> buffer \<Rightarrow> buffer \<Rightarrow> buffer option"
  cbc_update :: "buffer \<Rightarrow> buffer \<Rightarrow> buffer \<Rightarrow> buffer option"
  cbc_final :: "buffer \<Rightarrow> buffer \<Rightarrow> buffer \<Rightarrow> buffer option"

datatype exn = RangeError | Error jsstring | CryptoError

definition IV_LENGTH :: nat where "IV_LENGTH = 16"
definition SALT_LENGTH :: nat where "SALT_LENGTH = 32"
definition KEY_LENGTH :: nat where "KEY_LENGTH = 32"
definition PBKDF2_ITERATIONS :: nat where "PBKDF2_ITERATIONS = 310000"

definition deriveKeyFromPassword :: "crypto \<Rightarrow> jsstring \<Rightarrow> int \<Rightarrow> buffer \<Rightarrow> buffer" where
  "deriveKeyFromPassword c password uid salt =
     (let combined = password @ (js '':'') @ number_toString uid
      in pbkdf2Sync c (utf8_encode combined) salt PBKDF2_ITERATIONS KEY_LENGTH)"

text \<open>\<open>hashPassword\<close>; \<open>salt\<close> is the value of \<open>crypto.randomBytes(SALT_LENGTH)\<close>.\<close>

definition hashPassword :: "crypto \<Rightarrow> jsstring \<Rightarrow> int \<Rightarrow> buffer \<Rightarrow> jsstring" where
  "hashPassword c password uid salt =
     (let hash = pbkdf2Sync c (utf8_encode (password @ (js '':'') @ number_toString uid)) salt
                   PBKDF2_ITERATIONS KEY_LENGTH
      in to_hex salt @ (js '':'') @ to_hex hash)"

text \<open>\<open>crypto.timingSafeEqual\<close> throws a \<open>RangeError\<close> on buffers of different lengths.\<close>

definition timingSafeEqual :: "buffer \<Rightarrow> buffer \<Rightarrow> exn + bool" where
  "timingSafeEqual a b = (if length a \<noteq> length b then Inl RangeError else Inr (a = b))"

definition verifyPassword :: "crypto \<Rightarrow> jsstring \<Rightarrow> int \<Rightarrow> jsstring \<Rightarrow> exn + bool" where
  "verifyPassword c password uid storedHash =
     (case split_colon storedHash of
        [p0, p1] \<Rightarrow>
          (let salt = from_hex p0;
               hash = from_hex p1;
               testHash = pbkdf2Sync c
                            (utf8_encode (password @ (js '':'') @ number_toString uid)) salt
                            PBKDF2_ITERATIONS KEY_LENGTH
           in timingSafeEqual hash testHash)
      | _ \<Rightarrow> Inr False)"

text \<open>
  \<open>encryptWithPassword\<close>; \<open>salt\<close> and \<open>iv\<close> are the values of
  \<open>crypto.randomBytes(SALT_LENGTH)\<close> and \<open>crypto.randomBytes(IV_LENGTH)\<close>.
\<close>

definition encryptWithPassword ::
  "crypto \<Rightarrow> jsstring \<Rightarrow> jsstring \<Rightarrow> int \<Rightarrow> buffer \<Rightarrow> buffer \<Rightarrow> jsstring" where
  "encryptWithPassword c plaintext password uid salt iv =
     (let key = deriveKeyFromPassword c password uid salt;
          (encrypted, authTag) = gcm_encrypt c key iv (utf8_encode plaintext)
      in join_colon [to_hex salt, to_hex iv, to_hex authTag, to_hex encrypted])"

text \<open>
  The body shared by the GCM decrypt functions: \<open>createDecipheriv\<close>, \<open>setAuthTag\<close>,
  \<open>decrypted = decipher.update(encrypted, 'hex', 'utf8')\<close> and
  \<open>decrypted += decipher.final('utf8')\<close>, inside \<open>try\<close>: a throw of either step
  discards what the other returned.
\<close>

definition gcm_decipher :: "crypto \<Rightarrow> buffer \<Rightarrow> buffer \<Rightarrow> buffer \<Rightarrow> jsstring \<Rightarrow> jsstring option" where
  "gcm_decipher c key iv authTag encrypted =
     (case gcm_update c key iv authTag (from_hex encrypted) of
        None \<Rightarrow> None
      | Some u \<Rightarrow>
          (case gcm_final c key iv authTag (from_hex encrypted) of
             None \<Rightarrow> None
           | Some f \<Rightarrow> Some (utf8_decode (u @ f))))"

definition decryptWithPassword :: "crypto \<Rightarrow> jsstring \<Rightarrow> jsstring \<Rightarrow> int \<Rightarrow> jsstring option" where
  "decryptWithPassword c encryptedText password uid =
     (case split_colon encryptedText of
        [p0, p1, p2, p3] \<Rightarrow>
          (let salt = from_hex p0;
               iv = from_hex p1;
               authTag = from_hex p2;
               key = deriveKeyFromPassword c password uid salt
           in gcm_decipher c key iv authTag p3)
      | _ \<Rightarrow> None)"

text \<open>
  \<open>createSessionEncryption\<close>: the closure holds \<open>sessionKey = randomBytes(KEY_LENGTH)\<close>;
  its two functions take the key as an argument here.
\<close>

definition session_encrypt :: "crypto \<Rightarrow> buffer \<Rightarrow> buffer \<Rightarrow> jsstring \<Rightarrow> jsstring" where
  "session_encrypt c sessionKey iv data =
     (let (encrypted, authTag) = gcm_encrypt c sessionKey iv (utf8_encode data)
      in to_hex iv @ (js '':'') @ to_hex authTag @ (js '':'') @ to_hex encrypted)"

definition session_decrypt :: "crypto \<Rightarrow> buffer \<Rightarrow> jsstring \<Rightarrow> jsstring option" where
  "session_decrypt c sessionKey encryptedText =
     (case split_colon encryptedText of
        [p0, p1, p2] \<Rightarrow> gcm_decipher c sessionKey (from_hex p0) (from_hex p1) p2
      | _ \<Rightarrow> None)"

text \<open>The legacy AES-256-CBC functions, keyed by the server key (a hexadecimal string).\<close>

definition cbc_decipher :: "crypto \<Rightarrow> buffer \<Rightarrow> buffer \<Rightarrow> jsstring \<Rightarrow> jsstring option" where
  "cbc_decipher c key iv encrypted =
     (case cbc_update c key iv (from_hex encrypted) of
        None \<Rightarrow> None
      | Some u \<Rightarrow>
          (case cbc_final c key iv (from_hex encrypted) of
             None \<Rightarrow> None
           | Some f \<Rightarrow> Some (utf8_decode (u @ f))))"

definition decryptLegacy :: "crypto \<Rightarrow> jsstring \<Rightarrow> jsstring \<Rightarrow> jsstring option" where
  "decryptLegacy c encryptedText serverKey =
     (let key = from_hex serverKey in
      case split_colon encryptedText of
        [p0, p1] \<Rightarrow> cbc_decipher c key (from_hex p0) p1
      | _ \<Rightarrow> None)"

definition isLegacyFormat :: "jsstring \<Rightarrow> bool" where
  "isLegacyFormat encryptedText \<longleftrightarrow> length (split_colon encryptedText) = 2"

text \<open>
  \<open>encrypt\<close> and \<open>decrypt\<close> of \<open>utils/encryption.ts\<close>: no \<open>try\<close>, so a throw of the
  library reaches the caller, and a wrong field count is an \<open>Error\<close> thrown by
  \<open>decrypt\<close> itself.
\<close>

definition encrypt :: "crypto \<Rightarrow> jsstring \<Rightarrow> buffer \<Rightarrow> jsstring \<Rightarrow> exn + jsstring" where
  "encrypt c serverKey iv text =
     (let key = from_hex serverKey in
      case cbc_encrypt c key iv (utf8_encode text) of
        None \<Rightarrow> Inl CryptoError
      | Some encrypted \<Rightarrow> Inr (to_hex iv @ (js '':'') @ to_hex encrypted))"

definition decrypt :: "crypto \<Rightarrow> jsstring \<Rightarrow> jsstring \<Rightarrow> exn + jsstring" where
  "decrypt c serverKey encryptedText =
     (let key = from_hex serverKey in
      case split_colon encryptedText of
        [p0, p1] \<Rightarrow>
          (case cbc_decipher c key (from_hex p0) p1 of
             None \<Rightarrow> Inl CryptoError
           | Some decrypted \<Rightarrow> Inr decrypted)
      | _ \<Rightarrow> Inl (Error (js ''Invalid encrypted text format'')))"

subsection \<open>What the model asks of the library\<close>

text \<open>
  The contracts under which the round-trip properties are stated. The first three are
  the functional specification of PBKDF2 and of the two ciphers on keys and initialisation
  vectors of the lengths the code uses. The last two say what a property about a wrong
  password needs of the library at the inputs at hand, and no more: that PBKDF2 does not
  collide on two given inputs, and that the tag of one given message under one given key
  does not verify under one given other key. A tag is shorter than a key, so the latter
  cannot hold of all pairs of keys at once; it fails for a negligible part of them.
\<close>

definition pbkdf2_length :: "crypto \<Rightarrow> bool" where
  "pbkdf2_length c \<longleftrightarrow> (\<forall>pw salt it n. length (pbkdf2Sync c pw salt it n) = n)"

definition gcm_correct :: "crypto \<Rightarrow> bool" where
  "gcm_correct c \<longleftrightarrow>
     (\<forall>key iv pt ct tag. length key = KEY_LENGTH \<and> length iv = IV_LENGTH
        \<and> gcm_encrypt c key iv pt = (ct, tag) \<longrightarrow>
        (\<exists>u f. gcm_update c key iv tag ct = Some u \<and> gcm_final c key iv tag ct = Some f
               \<and> u @ f = pt))"

definition cbc_correct :: "crypto \<Rightarrow> bool" where
  "cbc_correct c \<longleftrightarrow>
     (\<forall>key iv pt ct. length key = KEY_LENGTH \<and> length iv = IV_LENGTH
        \<and> cbc_encrypt c key iv pt = Some ct \<longrightarrow>
        (\<exists>u f. cbc_update c key iv ct = Some u \<and> cbc_final c key iv ct = Some f
               \<and> u @ f = pt))"

definition pbkdf2_separates :: "crypto \<Rightarrow> buffer \<Rightarrow> buffer \<Rightarrow> buffer \<Rightarrow> bool" where
  "pbkdf2_separates c salt a b \<longleftrightarrow>
     (a \<noteq> b \<longrightarrow> pbkdf2Sync c a salt PBKDF2_ITERATIONS KEY_LENGTH
               \<noteq> pbkdf2Sync c b salt PBKDF2_ITERATIONS KEY_LENGTH)"

definition gcm_tag_binds :: "crypto \<Rightarrow> buffer \<Rightarrow> buffer \<Rightarrow> buffer \<Rightarrow> buffer \<Rightarrow> bool" where
  "gcm_tag_binds c key key' iv pt \<longleftrightarrow>
     (key' \<noteq> key \<longrightarrow>
        (case gcm_encrypt c key iv pt of (ct, tag) \<Rightarrow> gcm_final c key' iv tag ct = None))"

text \<open>
  A small instance of the contracts, on which the functions can be run: the derived key
  is cut from the password and the salt, the ciphers shift every byte by one, and the
  GCM tag is the key.
\<close>

definition toy_crypto :: crypto where
  "toy_crypto =
     \<lparr> pbkdf2Sync = (\<lambda>pw salt it n. take n (pw @ salt @ replicate n 0)),
       gcm_encrypt = (\<lambda>key iv pt. (map (\<lambda>b. b + 1) pt, key)),
       gcm_update = (\<lambda>key iv tag ct. Some (map (\<lambda>b. b - 1) ct)),
       gcm_final = (\<lambda>key iv tag ct. if tag = key then Some [] else None),
       cbc_encrypt = (\<lambda>key iv pt. if length key = 32 then Some (map (\<lambda>b. b + 1) pt) else None),
       cbc_update = (\<lambda>key iv ct. if length key = 32 then Some (map (\<lambda>b. b - 1) ct) else None),
       cbc_final = (\<lambda>key iv ct. Some []) \<rparr>"

section \<open>Session manager\<close>

text \<open>
  The process-wide \<open>Map\<close> of sessions is an association list in insertion order
  (\<open>Map.set\<close> keeps the place of a key that is present and appends a new one). The
  closure \<open>sessionCrypto\<close> of a session is its key. \<open>Date.now()\<close> is the argument
  \<open>now\<close>.
\<close>

record Session =
  sessionUserId :: int
  unlockedAt :: int
  expiresAt :: int
  encryptedKeys :: "Network \<rightharpoonup> jsstring"
  sessionKey :: buffer

type_synonym sessions = "(int \<times> Session) list"

definition SESSION_TIMEOUT_MS :: int where "SESSION_TIMEOUT_MS = 30 * 60 * 1000"
definition MAX_SESSIONS :: nat where "MAX_SESSIONS = 10000"

text \<open>\<open>createSession\<close>; \<open>key\<close> is the fresh key of \<open>createSessionEncryption()\<close>.\<close>

definition createSession ::
  "int \<Rightarrow> buffer \<Rightarrow> int \<Rightarrow> int \<Rightarrow> sessions \<Rightarrow> Session \<times> sessions" where
  "createSession now key uid timeoutMs ss =
     (let ss1 =
            (if length ss \<ge> MAX_SESSIONS then
               (let live = filter (\<lambda>(u, s). \<not> expiresAt s < now) ss in
                if length live \<ge> MAX_SESSIONS then
                  (case sort_key (\<lambda>(u, s). unlockedAt s) live of
                     [] \<Rightarrow> live
                   | oldest # _ \<Rightarrow> AList.delete (fst oldest) live)
                else live)
             else ss);
          session = \<lparr> sessionUserId = uid, unlockedAt = now, expiresAt = now + timeoutMs,
                      encryptedKeys = Map.empty, sessionKey = key \<rparr>
      in (session, AList.update uid session ss1))"

text \<open>\<open>getSession\<close>: an expired session is deleted by the read that finds it.\<close>

definition getSession :: "int \<Rightarrow> int \<Rightarrow> sessions \<Rightarrow> Session option \<times> sessions" where
  "getSession now uid ss =
     (case map_of ss uid of
        None \<Rightarrow> (None, ss)
      | Some session \<Rightarrow>
          if expiresAt session < now then (None, AList.delete uid ss)
          else (Some session, ss))"

definition refreshSession :: "int \<Rightarrow> int \<Rightarrow> int \<Rightarrow> sessions \<Rightarrow> bool \<times> sessions" where
  "refreshSession now uid timeoutMs ss =
     (case getSession now uid ss of
        (None, ss') \<Rightarrow> (False, ss')
      | (Some session, ss') \<Rightarrow>
          (True, AList.update uid (session\<lparr>expiresAt := now + timeoutMs\<rparr>) ss'))"

text \<open>\<open>storeKeyInSession\<close>; \<open>iv\<close> is the fresh vector drawn by \<open>sessionCrypto.encrypt\<close>.\<close>

definition storeKeyInSession ::
  "crypto \<Rightarrow> int \<Rightarrow> buffer \<Rightarrow> int \<Rightarrow> Network \<Rightarrow> jsstring \<Rightarrow> sessions \<Rightarrow> bool \<times> sessions" where
  "storeKeyInSession c now iv uid net privateKey ss =
     (case getSession now uid ss of
        (None, ss') \<Rightarrow> (False, ss')
      | (Some session, ss') \<Rightarrow>
          (let encrypted = session_encrypt c (sessionKey session) iv privateKey
           in (True,
               AList.update uid
                 (session\<lparr>encryptedKeys := (encryptedKeys session)(net \<mapsto> encrypted)\<rparr>) ss')))"

text \<open>\<open>getKeyFromSession\<close>; \<open>!encrypted\<close> also holds of the empty string.\<close>

definition getKeyFromSession ::
  "crypto \<Rightarrow> int \<Rightarrow> int \<Rightarrow> Network \<Rightarrow> sessions \<Rightarrow> jsstring option \<times> sessions" where
  "getKeyFromSession c now uid net ss =
     (case getSession now uid ss of
        (None, ss') \<Rightarrow> (None, ss')
      | (Some session, ss') \<Rightarrow>
          (case encryptedKeys session net of
             None \<Rightarrow> (None, ss')
           | Some encrypted \<Rightarrow>
               if encrypted = [] then (None, ss')
               else (session_decrypt c (sessionKey session) encrypted, ss')))"

definition lockSession :: "int \<Rightarrow> sessions \<Rightarrow> sessions" where
  "lockSession uid ss = AList.delete uid ss"

section \<open>Custody store\<close>

text \<open>
  The tables \<open>user_security\<close>, \<open>wallets\<close>, \<open>login_attempts\<close> and \<open>security_log\<close>, and
  the session table of the process. \<open>user_security\<close> and \<open>wallets\<close> are keyed by their
  primary key (a user, and a user with a network); the columns no modelled operation
  reads or writes are left out. A \<open>NULL\<close> is \<open>None\<close>.
\<close>

record UserSecurity =
  passwordHash :: jsstring
  lastPasswordChange :: "int option"

record UserWallet =
  address :: jsstring
  encryptedPrivateKey :: jsstring
  encryption_version :: "int option"

record LoginAttempt =
  attempt_user :: int
  attempt_time :: int
  success :: bool

record state =
  user_security :: "int \<rightharpoonup> UserSecurity"
  wallets :: "int \<times> Network \<rightharpoonup> UserWallet"
  login_attempts :: "LoginAttempt list"
  security_log :: "(int \<times> jsstring \<times> jsstring option) list"
  session_table :: sessions

definition hasUserSecurity :: "state \<Rightarrow> int \<Rightarrow> bool" where
  "hasUserSecurity st uid \<longleftrightarrow> user_security st uid \<noteq> None"

definition getUserSecurity :: "state \<Rightarrow> int \<Rightarrow> UserSecurity option" where
  "getUserSecurity st uid = user_security st uid"

text \<open>\<open>updateUserSecurity(uid, { passwordHash })\<close>: an \<open>UPDATE\<close> of the user's row.\<close>

definition updateUserSecurity_passwordHash :: "int \<Rightarrow> int \<Rightarrow> jsstring \<Rightarrow> state \<Rightarrow> state" where
  "updateUserSecurity_passwordHash now uid h st =
     (case user_security st uid of
        None \<Rightarrow> st
      | Some row \<Rightarrow>
          st\<lparr>user_security :=
               (user_security st)(uid \<mapsto> row\<lparr>passwordHash := h, lastPasswordChange := Some now\<rparr>)\<rparr>)"

text \<open>\<open>recordLoginAttempt\<close>: insert, then delete the user's attempts older than 24 hours.\<close>

definition recordLoginAttempt :: "int \<Rightarrow> int \<Rightarrow> bool \<Rightarrow> state \<Rightarrow> state" where
  "recordLoginAttempt now uid ok st =
     st\<lparr>login_attempts :=
          filter (\<lambda>a. \<not> (attempt_user a = uid \<and> attempt_time a < now - 24 * 60 * 60 * 1000))
            (login_attempts st @ [\<lparr>attempt_user = uid, attempt_time = now, success = ok\<rparr>])\<rparr>"

definition getFailedAttemptCount :: "int \<Rightarrow> state \<Rightarrow> int \<Rightarrow> int \<Rightarrow> int" where
  "getFailedAttemptCount now st uid minutes =
     (let since = now - minutes * 60 * 1000
      in int (length (filter (\<lambda>a. attempt_user a = uid \<and> attempt_time a > since \<and> \<not> success a)
                        (login_attempts st))))"

text \<open>\<open>SELECT MAX(attempt_time)\<close>: \<open>NULL\<close> on no row.\<close>

fun max_time :: "int list \<Rightarrow> int option" where
  "max_time [] = None"
| "max_time (t # ts) = (case max_time ts of None \<Rightarrow> Some t | Some m \<Rightarrow> Some (max t m))"

text \<open>\<open>isLockedOut\<close> returns \<open>{ locked, unlockIn }\<close>.\<close>

definition isLockedOut :: "int \<Rightarrow> state \<Rightarrow> int \<Rightarrow> bool \<times> int" where
  "isLockedOut now st uid =
     (let failedCount = getFailedAttemptCount now st uid 15 in
      if failedCount \<ge> 5 then
        (let last_attempt =
               max_time (map attempt_time
                 (filter (\<lambda>a. attempt_user a = uid \<and> \<not> success a) (login_attempts st)));
             lockUntil = (case last_attempt of None \<Rightarrow> 0 | Some t \<Rightarrow> t) + 15 * 60 * 1000
         in if now < lockUntil then (True, - ((now - lockUntil) div 60000)) else (False, 0))
      else (False, 0))"

text \<open>\<open>logSecurityEvent\<close> stores \<open>details || null\<close>.\<close>

definition logSecurityEvent :: "int \<Rightarrow> jsstring \<Rightarrow> jsstring option \<Rightarrow> state \<Rightarrow> state" where
  "logSecurityEvent uid action details st =
     st\<lparr>security_log :=
          security_log st @ [(uid, action, if details = Some [] then None else details)]\<rparr>"

definition getWallet :: "state \<Rightarrow> int \<Rightarrow> Network \<Rightarrow> UserWallet option" where
  "getWallet st uid net = wallets st (uid, net)"

text \<open>
  \<open>getAllWallets\<close>: the rows of the user, one per network at most (the query has no
  \<open>ORDER BY\<close>; the Solana row is taken first).
\<close>

definition getAllWallets :: "state \<Rightarrow> int \<Rightarrow> (Network \<times> UserWallet) list" where
  "getAllWallets st uid =
     List.map_filter (\<lambda>net. map_option (Pair net) (wallets st (uid, net))) [Solana, Base]"

text \<open>
  \<open>saveWallet\<close>: \<open>INSERT ... ON CONFLICT(telegram_user_id, network) DO UPDATE\<close> of the
  address and the blob; a new row takes the column default 1 as its version.
\<close>

definition saveWallet :: "int \<Rightarrow> Network \<Rightarrow> jsstring \<Rightarrow> jsstring \<Rightarrow> state \<Rightarrow> state" where
  "saveWallet uid net addr enc st =
     (case wallets st (uid, net) of
        None \<Rightarrow>
          st\<lparr>wallets := (wallets st)((uid, net) \<mapsto>
               \<lparr>address = addr, encryptedPrivateKey = enc, encryption_version = Some 1\<rparr>)\<rparr>
      | Some w \<Rightarrow>
          st\<lparr>wallets := (wallets st)((uid, net) \<mapsto>
               w\<lparr>address := addr, encryptedPrivateKey := enc\<rparr>)\<rparr>)"

definition setWalletEncryptionVersion :: "int \<Rightarrow> Network \<Rightarrow> int \<Rightarrow> state \<Rightarrow> state" where
  "setWalletEncryptionVersion uid net v st =
     (case wallets st (uid, net) of
        None \<Rightarrow> st
      | Some w \<Rightarrow> st\<lparr>wallets := (wallets st)((uid, net) \<mapsto> w\<lparr>encryption_version := Some v\<rparr>)\<rparr>)"

text \<open>\<open>getWalletEncryptionVersion\<close> returns \<open>row?.encryption_version || 1\<close>.\<close>

definition getWalletEncryptionVersion :: "state \<Rightarrow> int \<Rightarrow> Network \<Rightarrow> int" where
  "getWalletEncryptionVersion st uid net =
     (case wallets st (uid, net) of
        None \<Rightarrow> 1
      | Some w \<Rightarrow> (case encryption_version w of None \<Rightarrow> 1 | Some v \<Rightarrow> if v = 0 then 1 else v))"

section \<open>Custody service\<close>

text \<open>
  \<open>serverKey\<close> is \<open>config.walletEncryptionKey\<close>. A result \<open>{ success, error }\<close> is
  \<open>Success\<close> or \<open>Failure error\<close>; the result of \<open>unlock\<close> carries \<open>lockoutMinutes\<close>
  as well. An exception that leaves a function is \<open>Inl\<close>.
\<close>

datatype outcome = Success | Failure jsstring
datatype unlock_outcome = Unlocked | Rejected jsstring "int option"

definition decryptPrivateKey ::
  "crypto \<Rightarrow> jsstring \<Rightarrow> state \<Rightarrow> int \<Rightarrow> Network \<Rightarrow> jsstring \<Rightarrow> jsstring option" where
  "decryptPrivateKey c serverKey st uid net password =
     (case getWallet st uid net of
        None \<Rightarrow> None
      | Some wallet \<Rightarrow>
          (let version = getWalletEncryptionVersion st uid net in
           if version = 1 \<and> isLegacyFormat (encryptedPrivateKey wallet)
           then decryptLegacy c (encryptedPrivateKey wallet) serverKey
           else decryptWithPassword c (encryptedPrivateKey wallet) password uid))"

text \<open>
  The loop of \<open>unlock\<close> over the user's wallets; \<open>ivs net\<close> is the vector drawn when the
  key of \<open>net\<close> is stored. \<open>if (privateKey)\<close> fails on null and on the empty string.
\<close>

fun cache_keys ::
  "crypto \<Rightarrow> jsstring \<Rightarrow> int \<Rightarrow> int \<Rightarrow> jsstring \<Rightarrow> (Network \<Rightarrow> buffer)
     \<Rightarrow> (Network \<times> UserWallet) list \<Rightarrow> state \<Rightarrow> state" where
  "cache_keys c serverKey now uid password ivs [] st = st"
| "cache_keys c serverKey now uid password ivs ((net, wallet) # ws) st =
     (case decryptPrivateKey c serverKey st uid net password of
        None \<Rightarrow> cache_keys c serverKey now uid password ivs ws st
      | Some privateKey \<Rightarrow>
          if privateKey = [] then cache_keys c serverKey now uid password ivs ws st
          else cache_keys c serverKey now uid password ivs ws
                 (st\<lparr>session_table :=
                      snd (storeKeyInSession c now (ivs net) uid net privateKey
                             (session_table st))\<rparr>))"

definition unlock ::
  "crypto \<Rightarrow> jsstring \<Rightarrow> int \<Rightarrow> buffer \<Rightarrow> (Network \<Rightarrow> buffer) \<Rightarrow> int \<Rightarrow> jsstring \<Rightarrow> state
     \<Rightarrow> exn + unlock_outcome \<times> state" where
  "unlock c serverKey now key ivs uid password st =
     (case isLockedOut now st uid of
        (True, unlockIn) \<Rightarrow>
          Inr (Rejected ((js ''Too many failed attempts. Try again in '') @ number_toString unlockIn
                           @ (js '' minutes.'')) (Some unlockIn), st)
      | (False, unlockIn) \<Rightarrow>
          (case getUserSecurity st uid of
             None \<Rightarrow> Inr (Rejected (js ''Please set up a password first with /security'') None, st)
           | Some security \<Rightarrow>
               (case verifyPassword c password uid (passwordHash security) of
                  Inl e \<Rightarrow> Inl e
                | Inr False \<Rightarrow>
                    (let st1 = recordLoginAttempt now uid False st;
                         failedCount = getFailedAttemptCount now st1 uid 15;
                         remaining = 5 - failedCount
                     in Inr (Rejected
                               (if remaining > 0
                                then (js ''Incorrect password. '') @ number_toString remaining
                                       @ (js '' attempts remaining.'')
                                else (js ''Account locked for 15 minutes due to too many failed attempts.''))
                               None, st1))
                | Inr True \<Rightarrow>
                    (let st1 = recordLoginAttempt now uid True st;
                         st2 = st1\<lparr>session_table :=
                                    snd (createSession now key uid SESSION_TIMEOUT_MS
                                           (session_table st1))\<rparr>;
                         st3 = cache_keys c serverKey now uid password ivs
                                 (getAllWallets st2 uid) st2
                     in Inr (Unlocked, logSecurityEvent uid (js ''unlock'') None st3)))))"

definition lock :: "int \<Rightarrow> state \<Rightarrow> state" where
  "lock uid st =
     logSecurityEvent uid (js ''lock'') None (st\<lparr>session_table := lockSession uid (session_table st)\<rparr>)"

definition getPrivateKey ::
  "crypto \<Rightarrow> int \<Rightarrow> int \<Rightarrow> Network \<Rightarrow> state \<Rightarrow> jsstring option \<times> state" where
  "getPrivateKey c now uid net st =
     (case getKeyFromSession c now uid net (session_table st) of
        (r, ss) \<Rightarrow> (r, st\<lparr>session_table := ss\<rparr>))"

text \<open>
  The loop of \<open>changePassword\<close>; \<open>rnd net\<close> is the salt and the vector drawn when the
  wallet of \<open>net\<close> is encrypted again.
\<close>

fun reencrypt_wallets ::
  "crypto \<Rightarrow> jsstring \<Rightarrow> int \<Rightarrow> jsstring \<Rightarrow> jsstring \<Rightarrow> (Network \<Rightarrow> buffer \<times> buffer)
     \<Rightarrow> (Network \<times> UserWallet) list \<Rightarrow> state \<Rightarrow> state" where
  "reencrypt_wallets c serverKey uid currentPassword newPassword rnd [] st = st"
| "reencrypt_wallets c serverKey uid currentPassword newPassword rnd ((net, wallet) # ws) st =
     (case decryptPrivateKey c serverKey st uid net currentPassword of
        None \<Rightarrow> reencrypt_wallets c serverKey uid currentPassword newPassword rnd ws st
      | Some privateKey \<Rightarrow>
          if privateKey = []
          then reencrypt_wallets c serverKey uid currentPassword newPassword rnd ws st
          else
            (let newEncrypted = encryptWithPassword c privateKey newPassword uid
                                  (fst (rnd net)) (snd (rnd net))
             in reencrypt_wallets c serverKey uid currentPassword newPassword rnd ws
                  (setWalletEncryptionVersion uid net 2
                     (saveWallet uid net (address wallet) newEncrypted st))))"

definition changePassword ::
  "crypto \<Rightarrow> jsstring \<Rightarrow> int \<Rightarrow> (Network \<Rightarrow> buffer \<times> buffer) \<Rightarrow> buffer \<Rightarrow> int \<Rightarrow> jsstring
     \<Rightarrow> jsstring \<Rightarrow> state \<Rightarrow> exn + outcome \<times> state" where
  "changePassword c serverKey now rnd hashSalt uid currentPassword newPassword st =
     (case getUserSecurity st uid of
        None \<Rightarrow> Inr (Failure (js ''No security setup found''), st)
      | Some security \<Rightarrow>
          (case verifyPassword c currentPassword uid (passwordHash security) of
             Inl e \<Rightarrow> Inl e
           | Inr False \<Rightarrow>
               Inr (Failure (js ''Current password is incorrect''), recordLoginAttempt now uid False st)
           | Inr True \<Rightarrow>
               if length newPassword < 6
               then Inr (Failure (js ''New password must be at least 6 characters''), st)
               else
                 (let st1 = reencrypt_wallets c serverKey uid currentPassword newPassword rnd
                              (getAllWallets st uid) st;
                      newHash = hashPassword c newPassword uid hashSalt;
                      st2 = updateUserSecurity_passwordHash now uid newHash st1;
                      st3 = logSecurityEvent uid (js ''password_changed'') None st2;
                      st4 = st3\<lparr>session_table := lockSession uid (session_table st3)\<rparr>
                  in Inr (Success, st4))))"



section \<open>A small custody state\<close>

text \<open>
  A state on which the operations can be run with \<open>toy_crypto\<close>: user 42 with the
  password \<open>abcdef\<close>, a Solana wallet in the current format, a Base wallet in the
  legacy format, and an open session that holds the Solana key.
\<close>

definition toy_server_key :: jsstring where
  "toy_server_key = (js ''0000000000000000000000000000000000000000000000000000000000000000'')"

definition toy_session :: Session where
  "toy_session =
     \<lparr> sessionUserId = 42, unlockedAt = 1000, expiresAt = 1801000,
       encryptedKeys =
         [Solana \<mapsto> session_encrypt toy_crypto (replicate 32 0) (replicate 16 0) (js ''secret'')],
       sessionKey = replicate 32 0 \<rparr>"

definition toy_state :: state where
  "toy_state =
     \<lparr> user_security =
         [42 \<mapsto> \<lparr> passwordHash = hashPassword toy_crypto (js ''abcdef'') 42 (replicate 32 0),
                   lastPasswordChange = None \<rparr>],
       wallets =
         [(42, Solana) \<mapsto>
            \<lparr> address = (js ''So1''),
              encryptedPrivateKey =
                encryptWithPassword toy_crypto (js ''secret'') (js ''abcdef'') 42 (replicate 32 0)
                  (replicate 16 0),
              encryption_version = Some 2 \<rparr>,
          (42, Base) \<mapsto>
            \<lparr> address = (js ''0xb''),
              encryptedPrivateKey =
                to_hex (replicate 16 0) @ (js '':'') @ to_hex (map (\<lambda>b. b + 1) (utf8_encode (js ''legacy''))),
              encryption_version = Some 1 \<rparr>],
       login_attempts = [],
       security_log = [],
       session_table = [(42, toy_session)] \<rparr>"

text \<open>
  The same state, with a Base wallet that was encrypted under another password and so
  does not decrypt under \<open>abcdef\<close>.
\<close>

definition toy_state_foreign :: state where
  "toy_state_foreign =
     toy_state\<lparr>wallets := (wallets toy_state)((42, Base) \<mapsto>
        \<lparr> address = (js ''0xb''),
          encryptedPrivateKey =
            encryptWithPassword toy_crypto (js ''other'') (js ''zzzzzz'') 42 (replicate 32 0) (replicate 16 0),
          encryption_version = Some 2 \<rparr>)\<rparr>"

text \<open>
  Five failed logins of user 42, one minute apart, recorded by \<open>recordLoginAttempt\<close>;
  the stored hash is the hash of \<open>password\<close>.
\<close>

definition lockout_scenario :: "crypto \<Rightarrow> jsstring \<Rightarrow> buffer \<Rightarrow> state" where
  "lockout_scenario c password salt =
     recordLoginAttempt 1700000240000 42 False
       (recordLoginAttempt 1700000180000 42 False
         (recordLoginAttempt 1700000120000 42 False
           (recordLoginAttempt 1700000060000 42 False
             (recordLoginAttempt 1700000000000 42 False
               \<lparr> user_security =
                   [42 \<mapsto> \<lparr> passwordHash = hashPassword c password 42 salt,
                             lastPasswordChange = None \<rparr>],
                 wallets = Map.empty,
                 login_attempts = [],
                 security_log = [],
                 session_table = [] \<rparr>))))"

section \<open>Properties of the string conversions\<close>

text \<open>
  Some values of the two conversions: ASCII text, a surrogate pair, two unpaired
  surrogates (which share one encoding), and bytes that are not UTF-8.
\<close>

lemma utf8_examples:
  "utf8_encode (js ''a:1'') = [97, 58, 49]"
  "utf8_encode [0xD83D, 0xDE00] = [0xF0, 0x9F, 0x98, 0x80]"
  "utf8_decode [0xF0, 0x9F, 0x98, 0x80] = [0xD83D, 0xDE00]"
  "utf8_encode [0xD800] = [0xEF, 0xBF, 0xBD]"
  "utf8_encode [0xD801] = [0xEF, 0xBF, 0xBD]"
  "utf8_decode [0xEF, 0xBF, 0xBD] = [0xFFFD]"
  "utf8_decode [0xE0, 0x41] = [0xFFFD, 0x41]"
  "utf8_decode [0xC0, 0x80] = [0xFFFD, 0xFFFD]"
  by (simp_all add: js_def byte_of_def unit_of_def continuation_def is_high_surrogate_def
      is_low_surrogate_def)

lemma unat_byte: "n < 256 \<Longrightarrow> unat (byte_of n) = n"
  by (simp add: byte_of_def unat_of_nat)

lemma unit_of_unat: "unit_of (unat u) = u"
  by (simp add: unit_of_def)

lemma unit_lt: "unat (u :: 16 word) < 65536"
  using unsigned_less [of u, where ?'a = nat] by simp

lemma decode_1:
  "n < 0x80 \<Longrightarrow> utf8_decode (byte_of n # bs) = unit_of n # utf8_decode bs"
  by (simp add: unat_byte)

lemma decode_2:
  assumes "0x80 \<le> n" "n < 0x800"
  shows "utf8_decode (byte_of (0xC0 + n div 64) # byte_of (0x80 + n mod 64) # bs)
           = unit_of n # utf8_decode bs"
proof -
  define a where "a = n div 64"
  define b where "b = n mod 64"
  have r: "a * 64 + b = n" unfolding a_def b_def by simp
  have b: "b < 64" unfolding b_def by simp
  from r b assms have a: "2 \<le> a" "a < 32" by linarith+
  have u: "unat (byte_of (0xC0 + a)) = 0xC0 + a" "unat (byte_of (0x80 + b)) = 0x80 + b"
    using a b by (simp_all add: unat_byte)
  have "utf8_decode (byte_of (0xC0 + a) # byte_of (0x80 + b) # bs)
          = unit_of (a * 64 + b) # utf8_decode bs"
    using a b by (simp add: u continuation_def)
  then show ?thesis unfolding r unfolding a_def b_def .
qed

lemma digits_2: "(m::nat) div 64 * (64 * k) + m mod 64 * k = m * k"
proof -
  have "m div 64 * (64 * k) + m mod 64 * k = (m div 64 * 64 + m mod 64) * k"
    by (simp only: add_mult_distrib mult.assoc)
  also have "\<dots> = m * k" by (simp only: div_mult_mod_eq)
  finally show ?thesis .
qed

lemma digits_3: "(n::nat) div 4096 * 4096 + n div 64 mod 64 * 64 + n mod 64 = n"
proof -
  have q: "n div 4096 = n div 64 div 64" by (simp add: div_mult2_eq [symmetric])
  have "n div 64 div 64 * (64 * 64) + n div 64 mod 64 * 64 = n div 64 * 64"
    by (rule digits_2)
  then have "n div 4096 * 4096 + n div 64 mod 64 * 64 = n div 64 * 64"
    unfolding q by simp
  then show ?thesis by (simp only: div_mult_mod_eq)
qed

lemma decode_3:
  assumes "0x800 \<le> n" "n < 0x10000" "\<not> (0xD800 \<le> n \<and> n \<le> 0xDFFF)"
  shows "utf8_decode (byte_of (0xE0 + n div 4096) # byte_of (0x80 + n div 64 mod 64)
                        # byte_of (0x80 + n mod 64) # bs)
           = unit_of n # utf8_decode bs"
proof -
  define a where "a = n div 4096"
  define b where "b = n div 64 mod 64"
  define d where "d = n mod 64"
  have r: "a * 4096 + b * 64 + d = n" unfolding a_def b_def d_def by (rule digits_3)
  have bd: "b < 64" "d < 64" unfolding b_def d_def by simp_all
  from r bd assms have a: "a < 16" by linarith
  from r bd assms have lo: "a = 0 \<Longrightarrow> 32 \<le> b" by linarith
  from r bd assms have hi: "a = 13 \<Longrightarrow> b < 32" by linarith
  have r': "((a * 64 + b) * 64 + d) = n" using r by (simp add: add_mult_distrib)
  have u: "unat (byte_of (0xE0 + a)) = 0xE0 + a" "unat (byte_of (0x80 + b)) = 0x80 + b"
    "unat (byte_of (0x80 + d)) = 0x80 + d"
    using a bd by (simp_all add: unat_byte)
  have "utf8_decode (byte_of (0xE0 + a) # byte_of (0x80 + b) # byte_of (0x80 + d) # bs)
           = unit_of ((a * 64 + b) * 64 + d) # utf8_decode bs"
    using a bd lo hi by (auto simp: u continuation_def)
  then show ?thesis unfolding r' unfolding a_def b_def d_def .
qed

lemma digits_4:
  "(cp::nat) div 262144 * 262144 + cp div 4096 mod 64 * 4096 + cp div 64 mod 64 * 64 + cp mod 64
     = cp"
proof -
  have q: "cp div 262144 = cp div 4096 div 64" by (simp add: div_mult2_eq [symmetric])
  have "cp div 4096 div 64 * (64 * 4096) + cp div 4096 mod 64 * 4096 = cp div 4096 * 4096"
    by (rule digits_2)
  then have "cp div 262144 * 262144 + cp div 4096 mod 64 * 4096 = cp div 4096 * 4096"
    unfolding q by simp
  then show ?thesis by (simp only: digits_3)
qed

lemma decode_4_digits:
  assumes "a < 5" "b < 64" "d < 64" "e < 64" "a = 0 \<Longrightarrow> 16 \<le> b" "a = 4 \<Longrightarrow> b < 16"
  shows "utf8_decode (byte_of (0xF0 + a) # byte_of (0x80 + b) # byte_of (0x80 + d)
                       # byte_of (0x80 + e) # bs)
           = (let cp = (((0xF0 + a - 0xF0) * 64 + (0x80 + b - 0x80)) * 64 + (0x80 + d - 0x80)) * 64
                        + (0x80 + e - 0x80)
              in unit_of (0xD800 + (cp - 0x10000) div 1024)
                   # unit_of (0xDC00 + (cp - 0x10000) mod 1024) # utf8_decode bs)"
proof -
  have u: "unat (byte_of (0xF0 + a)) = 0xF0 + a" "unat (byte_of (0x80 + b)) = 0x80 + b"
    "unat (byte_of (0x80 + d)) = 0x80 + d" "unat (byte_of (0x80 + e)) = 0x80 + e"
    using assms(1-4) by (simp_all add: unat_byte)
  have c: "continuation (byte_of (0x80 + d))" "continuation (byte_of (0x80 + e))"
    using assms(3,4) by (simp_all add: continuation_def u)
  have f: "(0xF0 \<le> 0xF0 + a \<and> 0xF0 + a \<le> 0xF4) = True" "(0xF0 + a < 0x80) = False"
    "(0xC2 \<le> 0xF0 + a \<and> 0xF0 + a \<le> 0xDF) = False"
    "(0xE0 \<le> 0xF0 + a \<and> 0xF0 + a \<le> 0xEF) = False"
    using assms(1) by simp_all
  have g: "((if 0xF0 + a = 0xF0 then 0x90 else 0x80) \<le> 0x80 + b
           \<and> 0x80 + b \<le> (if 0xF0 + a = 0xF4 then 0x8F else 0xBF)) = True"
    using assms(2,5,6) by auto
  have c': "continuation (byte_of (0x80 + d)) = True" "continuation (byte_of (0x80 + e)) = True"
    using c by simp_all
  show ?thesis
    by (simp only: utf8_decode.simps Let_def u c' f g list.case if_True if_False)
qed

lemma decode_4:
  assumes "0x10000 \<le> cp" "cp \<le> 0x10FFFF"
  shows "utf8_decode (byte_of (0xF0 + cp div 262144) # byte_of (0x80 + cp div 4096 mod 64)
                        # byte_of (0x80 + cp div 64 mod 64) # byte_of (0x80 + cp mod 64)
                        # bs)
           = unit_of (0xD800 + (cp - 0x10000) div 1024)
               # unit_of (0xDC00 + (cp - 0x10000) mod 1024) # utf8_decode bs"
proof -
  define a where "a = cp div 262144"
  define b where "b = cp div 4096 mod 64"
  define d where "d = cp div 64 mod 64"
  define e where "e = cp mod 64"
  have r: "a * 262144 + b * 4096 + d * 64 + e = cp"
    unfolding a_def b_def d_def e_def by (rule digits_4)
  have bd: "b < 64" "d < 64" "e < 64" unfolding b_def d_def e_def by simp_all
  from r bd assms have a: "a < 5" by linarith
  from r bd assms have lo: "a = 0 \<Longrightarrow> 16 \<le> b" by linarith
  from r bd assms have hi: "a = 4 \<Longrightarrow> b < 16" by linarith
  have r': "(((0xF0 + a - 0xF0) * 64 + (0x80 + b - 0x80)) * 64 + (0x80 + d - 0x80)) * 64
              + (0x80 + e - 0x80) = cp"
    using r by (simp add: add_mult_distrib)
  from decode_4_digits [OF a bd lo hi, of bs]
  show ?thesis unfolding Let_def r' unfolding a_def b_def d_def e_def .
qed

lemma decode_replacement:
  "utf8_decode (0xEF # 0xBF # 0xBD # bs) = 0xFFFD # utf8_decode bs"
  by (simp add: continuation_def unit_of_def)

lemma pair_code_point:
  assumes "is_high_surrogate u" "is_low_surrogate v"
  shows "0x10000 \<le> 0x10000 + (unat u - 0xD800) * 1024 + (unat v - 0xDC00)"
    "0x10000 + (unat u - 0xD800) * 1024 + (unat v - 0xDC00) \<le> 0x10FFFF"
    "unit_of (0xD800 + (0x10000 + (unat u - 0xD800) * 1024 + (unat v - 0xDC00) - 0x10000) div 1024) = u"
    "unit_of (0xDC00 + (0x10000 + (unat u - 0xD800) * 1024 + (unat v - 0xDC00) - 0x10000) mod 1024) = v"
proof -
  define x where "x = unat u - 0xD800"
  define y where "y = unat v - 0xDC00"
  from assms have b: "0xD800 \<le> unat u" "unat u \<le> 0xDBFF" "0xDC00 \<le> unat v" "unat v \<le> 0xDFFF"
    by (simp_all add: is_high_surrogate_def is_low_surrogate_def)
  then have xy: "x < 1024" "y < 1024" "0xD800 + x = unat u" "0xDC00 + y = unat v"
    unfolding x_def y_def by linarith+
  have e: "0x10000 + x * 1024 + y - 0x10000 = x * 1024 + y" by simp
  have dm: "(x * 1024 + y) div 1024 = x" "(x * 1024 + y) mod 1024 = y"
    using xy(2) by simp_all
  show "0x10000 \<le> 0x10000 + (unat u - 0xD800) * 1024 + (unat v - 0xDC00)" by simp
  show "0x10000 + (unat u - 0xD800) * 1024 + (unat v - 0xDC00) \<le> 0x10FFFF"
    using xy(1,2) unfolding x_def [symmetric] y_def [symmetric] by linarith
  show "unit_of (0xD800 + (0x10000 + (unat u - 0xD800) * 1024 + (unat v - 0xDC00) - 0x10000) div 1024) = u"
    unfolding x_def [symmetric] y_def [symmetric] e dm xy(3) by (rule unit_of_unat)
  show "unit_of (0xDC00 + (0x10000 + (unat u - 0xD800) * 1024 + (unat v - 0xDC00) - 0x10000) mod 1024) = v"
    unfolding x_def [symmetric] y_def [symmetric] e dm xy(4) by (rule unit_of_unat)
qed

lemma utf8_decode_encode: "utf8_decode (utf8_encode s) = toWellFormed s"
proof (induction s rule: toWellFormed.induct)
  case 1
  show ?case by simp
next
  case (2 u us)
  let ?n = "unat u"
  have lt: "?n < 65536" by (rule unit_lt)
  consider (one) "?n < 0x80" | (two) "0x80 \<le> ?n" "?n < 0x800"
    | (high) "is_high_surrogate u" | (low) "is_low_surrogate u"
    | (three) "0x800 \<le> ?n" "\<not> is_high_surrogate u" "\<not> is_low_surrogate u"
    unfolding is_high_surrogate_def is_low_surrogate_def by atomize_elim linarith
  then show ?case
  proof cases
    case one
    then have ns: "\<not> is_high_surrogate u" "\<not> is_low_surrogate u"
      by (simp_all add: is_high_surrogate_def is_low_surrogate_def)
    with one 2 show ?thesis by (simp add: decode_1 unit_of_unat Let_def del: utf8_decode.simps)
  next
    case two
    then have ns: "\<not> is_high_surrogate u" "\<not> is_low_surrogate u"
      by (simp_all add: is_high_surrogate_def is_low_surrogate_def)
    with two 2 show ?thesis by (simp add: decode_2 unit_of_unat Let_def del: utf8_decode.simps)
  next
    case high
    then have n: "\<not> ?n < 0x80" "\<not> ?n < 0x800" by (simp_all add: is_high_surrogate_def)
    show ?thesis
    proof (cases us)
      case Nil
      with high n show ?thesis by (simp add: continuation_def unit_of_def)
    next
      case (Cons v vs)
      show ?thesis
      proof (cases "is_low_surrogate v")
        case True
        with high n Cons 2 pair_code_point [OF high True] show ?thesis
          by (simp add: decode_4 Let_def del: utf8_decode.simps)
      next
        case False
        with high n Cons 2 show ?thesis
          by (simp add: decode_replacement Let_def del: utf8_decode.simps)
      qed
    qed
  next
    case low
    then have n: "\<not> ?n < 0x80" "\<not> ?n < 0x800" "\<not> is_high_surrogate u"
      by (simp_all add: is_low_surrogate_def is_high_surrogate_def)
    with low 2 show ?thesis by (simp add: decode_replacement Let_def del: utf8_decode.simps)
  next
    case three
    then have n: "\<not> ?n < 0x80" "\<not> ?n < 0x800" by simp_all
    from three have "\<not> (0xD800 \<le> ?n \<and> ?n \<le> 0xDFFF)"
      by (auto simp: is_high_surrogate_def is_low_surrogate_def)
    from decode_3 [OF three(1) lt this] three n 2 show ?thesis
      by (simp add: unit_of_unat Let_def del: utf8_decode.simps)
  qed
qed

lemma js_unit: "unat (word_of_nat (of_char ch) :: 16 word) = of_char ch"
proof -
  have "(of_char ch :: nat) < 65536" using nat_of_char_less_256 [of ch] by linarith
  then show ?thesis by (simp add: unat_of_nat)
qed

lemma length_js: "length (js s) = length s"
  by (simp add: js_def)

lemma js_Nil_iff: "js s = [] \<longleftrightarrow> s = []"
  by (simp add: js_def)

lemma js_eq_iff: "js a = js b \<longleftrightarrow> a = b"
proof
  assume "js a = js b"
  then have "map unat (js a) = map unat (js b)" by simp
  then have "map (of_char :: char \<Rightarrow> nat) a = map of_char b"
    by (simp add: js_def js_unit comp_def)
  then show "a = b" by (simp add: inj_map_eq_map inj_on_def)
qed simp

lemma js_not_surrogate:
  "\<not> is_high_surrogate (word_of_nat (of_char ch))" "\<not> is_low_surrogate (word_of_nat (of_char ch))"
  unfolding is_high_surrogate_def is_low_surrogate_def js_unit
  using nat_of_char_less_256 [of ch] by linarith+

lemma isWellFormed_js: "isWellFormed (js s)"
  by (induction s) (simp_all add: js_def js_not_surrogate)

lemma toWellFormed_id: "isWellFormed s \<Longrightarrow> toWellFormed s = s"
proof (induction "length s" arbitrary: s rule: less_induct)
  case less
  show ?case
  proof (cases s)
    case Nil
    then show ?thesis by simp
  next
    case (Cons u us)
    show ?thesis
    proof (cases "is_high_surrogate u")
      case True
      with less.prems Cons obtain v vs
        where us: "us = v # vs" and lv: "is_low_surrogate v" and wf: "isWellFormed vs"
        by (cases us) simp_all
      have "toWellFormed vs = vs" using less.hyps [of vs] wf Cons us by simp
      then show ?thesis using True lv Cons us by simp
    next
      case False
      with less.prems Cons have nl: "\<not> is_low_surrogate u" and wf: "isWellFormed us"
        by simp_all
      have "toWellFormed us = us" using less.hyps [of us] wf Cons by simp
      then show ?thesis using False nl Cons by simp
    qed
  qed
qed

lemma replacement_not_surrogate:
  "\<not> is_high_surrogate 0xFFFD" "\<not> is_low_surrogate 0xFFFD"
  by (simp_all add: is_high_surrogate_def is_low_surrogate_def)

lemma surrogate_disjoint: "is_high_surrogate u \<Longrightarrow> \<not> is_low_surrogate u"
  by (simp add: is_high_surrogate_def is_low_surrogate_def)

lemma isWellFormed_toWellFormed: "isWellFormed (toWellFormed s)"
proof (induction "length s" arbitrary: s rule: less_induct)
  case less
  show ?case
  proof (cases s)
    case Nil
    then show ?thesis by simp
  next
    case (Cons u us)
    have ih: "isWellFormed (toWellFormed us)" using less.hyps [of us] Cons by simp
    show ?thesis
    proof (cases "is_high_surrogate u")
      case True
      show ?thesis
      proof (cases us)
        case Nil
        then show ?thesis using True Cons by (simp add: replacement_not_surrogate)
      next
        case (Cons v vs)
        have ih': "isWellFormed (toWellFormed vs)"
          using less.hyps [of vs] Cons \<open>s = u # us\<close> by simp
        show ?thesis
        proof (cases "is_low_surrogate v")
          case True
          then show ?thesis
            using \<open>is_high_surrogate u\<close> Cons \<open>s = u # us\<close> ih' by simp
        next
          case False
          have "toWellFormed s = 0xFFFD # toWellFormed us"
            using False \<open>is_high_surrogate u\<close> Cons \<open>s = u # us\<close> by simp
          then show ?thesis using ih by (simp add: replacement_not_surrogate)
        qed
      qed
    next
      case False
      show ?thesis
      proof (cases "is_low_surrogate u")
        case True
        have "toWellFormed s = 0xFFFD # toWellFormed us"
          using True False Cons by simp
        then show ?thesis using ih by (simp add: replacement_not_surrogate)
      next
        case nl: False
        have "toWellFormed s = u # toWellFormed us"
          using nl False Cons by simp
        then show ?thesis using ih nl False by simp
      qed
    qed
  qed
qed

lemma toWellFormed_idem: "toWellFormed (toWellFormed s) = toWellFormed s"
  by (rule toWellFormed_id) (rule isWellFormed_toWellFormed)

lemma toWellFormed_js: "toWellFormed (js s) = js s"
  by (rule toWellFormed_id) (rule isWellFormed_js)

lemma toWellFormed_Nil_iff: "toWellFormed s = [] \<longleftrightarrow> s = []"
  by (cases s) (auto split: list.splits)

lemma utf8_encode_lone_surrogates: "utf8_encode [0xD801] = utf8_encode [0xD800]"
  by (simp add: is_high_surrogate_def)

lemma high_not_short: "is_high_surrogate u \<Longrightarrow> \<not> unat u < 0x80 \<and> \<not> unat u < 0x800"
  by (simp add: is_high_surrogate_def)

lemma low_not_short:
  "is_low_surrogate u \<Longrightarrow> \<not> unat u < 0x80 \<and> \<not> unat u < 0x800 \<and> \<not> is_high_surrogate u"
  by (simp add: is_low_surrogate_def is_high_surrogate_def)

lemma encode_high_end: "is_high_surrogate u \<Longrightarrow> utf8_encode [u] = [0xEF, 0xBF, 0xBD]"
  unfolding utf8_encode.simps(2) [of u "[]"]
  by (simp add: high_not_short del: utf8_encode.simps(2))

lemma encode_high_lone:
  "is_high_surrogate u \<Longrightarrow> \<not> is_low_surrogate v \<Longrightarrow>
   utf8_encode (u # v # w) = 0xEF # 0xBF # 0xBD # utf8_encode (v # w)"
  unfolding utf8_encode.simps(2) [of u "v # w"]
  by (simp add: high_not_short del: utf8_encode.simps(2))

lemma encode_pair:
  "is_high_surrogate u \<Longrightarrow> is_low_surrogate v \<Longrightarrow>
   utf8_encode (u # v # w) = utf8_encode [u, v] @ utf8_encode w"
  unfolding utf8_encode.simps(2) [of u "v # w"] utf8_encode.simps(2) [of u "[v]"]
  by (simp add: high_not_short Let_def del: utf8_encode.simps(2))

lemma encode_low:
  "is_low_surrogate v \<Longrightarrow> utf8_encode (v # w) = 0xEF # 0xBF # 0xBD # utf8_encode w"
  unfolding utf8_encode.simps(2) [of v w]
  by (simp add: low_not_short del: utf8_encode.simps(2))

lemma encode_not_high:
  "\<not> is_high_surrogate u \<Longrightarrow> utf8_encode (u # w) = utf8_encode [u] @ utf8_encode w"
  unfolding utf8_encode.simps(2) [of u w] utf8_encode.simps(2) [of u "[]"]
  by (simp add: Let_def del: utf8_encode.simps(2))

lemma utf8_encode_append:
  "\<not> is_low_surrogate x \<Longrightarrow> utf8_encode (p @ x # r) = utf8_encode p @ utf8_encode (x # r)"
proof (induction p)
  case Nil
  show ?case by (simp del: utf8_encode.simps(2))
next
  case (Cons u us)
  note IH = Cons.IH [OF Cons.prems]
  show ?case
  proof (cases "is_high_surrogate u")
    case False
    from encode_not_high [OF False, of "us @ x # r"] encode_not_high [OF False, of us] IH
    show ?thesis by (simp del: utf8_encode.simps)
  next
    case high: True
    show ?thesis
    proof (cases us)
      case Nil
      from encode_high_lone [OF high Cons.prems, of r] encode_high_end [OF high] Nil
      show ?thesis by (simp del: utf8_encode.simps)
    next
      case (Cons v vs)
      show ?thesis
      proof (cases "is_low_surrogate v")
        case True
        from IH Cons encode_low [OF True, of "vs @ x # r"] encode_low [OF True, of vs]
        have "utf8_encode (vs @ x # r) = utf8_encode vs @ utf8_encode (x # r)"
          by (simp del: utf8_encode.simps)
        with encode_pair [OF high True, of "vs @ x # r"] encode_pair [OF high True, of vs] Cons
        show ?thesis by (simp del: utf8_encode.simps)
      next
        case False
        from encode_high_lone [OF high False, of "vs @ x # r"] encode_high_lone [OF high False, of vs]
          IH Cons
        show ?thesis by (simp del: utf8_encode.simps)
      qed
    qed
  qed
qed

lemma unat_unit_of: "n < 65536 \<Longrightarrow> unat (unit_of n) = n"
  by (simp add: unit_of_def unat_of_nat)

lemma wf_step_plain:
  assumes "isWellFormed r" "n < 0xD800 \<or> 0xDFFF < n" "n < 65536"
  shows "isWellFormed (unit_of n # r)"
proof -
  have "\<not> is_high_surrogate (unit_of n)" "\<not> is_low_surrogate (unit_of n)"
    unfolding is_high_surrogate_def is_low_surrogate_def unat_unit_of [OF assms(3)]
    using assms(2) by linarith+
  with assms(1) show ?thesis by simp
qed

lemma wf_step_replacement: "isWellFormed r \<Longrightarrow> isWellFormed (0xFFFD # r)"
  by (simp add: replacement_not_surrogate)

lemma wf_step_pair:
  assumes "isWellFormed r" "0x10000 \<le> cp" "cp \<le> 0x10FFFF"
  shows "isWellFormed (unit_of (0xD800 + (cp - 0x10000) div 1024)
                         # unit_of (0xDC00 + (cp - 0x10000) mod 1024) # r)"
proof -
  define k where "k = cp - 0x10000"
  have "k < 1024 * 1024" unfolding k_def using assms(2,3) by linarith
  then have q: "k div 1024 < 1024" by (simp add: less_mult_imp_div_less)
  have m: "k mod 1024 < 1024" by simp
  have h: "unat (unit_of (0xD800 + k div 1024)) = 0xD800 + k div 1024"
    using q by (intro unat_unit_of) linarith
  have l: "unat (unit_of (0xDC00 + k mod 1024)) = 0xDC00 + k mod 1024"
    using m by (intro unat_unit_of) linarith
  have "is_high_surrogate (unit_of (0xD800 + k div 1024))"
    unfolding is_high_surrogate_def h using q by linarith
  moreover have "is_low_surrogate (unit_of (0xDC00 + k mod 1024))"
    unfolding is_low_surrogate_def l using m by linarith
  ultimately show ?thesis using assms(1) unfolding k_def by simp
qed

lemma digits3_le:
  "a \<le> A \<Longrightarrow> b \<le> B \<Longrightarrow> d \<le> D \<Longrightarrow>
   ((a::nat) * 64 + b) * 64 + d \<le> (A * 64 + B) * 64 + D"
  by (intro add_mono mult_le_mono order_refl)

lemma digits4_le:
  "a \<le> A \<Longrightarrow> b \<le> B \<Longrightarrow> d \<le> D \<Longrightarrow> e \<le> E \<Longrightarrow>
   (((a::nat) * 64 + b) * 64 + d) * 64 + e \<le> ((A * 64 + B) * 64 + D) * 64 + E"
  by (intro add_mono mult_le_mono order_refl)

lemma decode_lead1:
  assumes "unat b0 < 0x80"
  shows "utf8_decode (b0 # r) = unit_of (unat b0) # utf8_decode r"
  using assms by simp

lemma decode_lead_bad:
  assumes "0x80 \<le> unat b0" "unat b0 < 0xC2 \<or> 0xF4 < unat b0"
  shows "utf8_decode (b0 # r) = 0xFFFD # utf8_decode r"
proof -
  have f: "(unat b0 < 0x80) = False" "(0xC2 \<le> unat b0 \<and> unat b0 \<le> 0xDF) = False"
    "(0xE0 \<le> unat b0 \<and> unat b0 \<le> 0xEF) = False"
    "(0xF0 \<le> unat b0 \<and> unat b0 \<le> 0xF4) = False"
    using assms by auto
  show ?thesis
    unfolding utf8_decode.simps(2) [of b0 r] Let_def
    by (simp only: f if_False)
qed

lemma decode_lead2:
  assumes "0xC2 \<le> unat b0" "unat b0 \<le> 0xDF"
  shows "utf8_decode (b0 # r) =
           (case r of
              [] \<Rightarrow> [0xFFFD]
            | b1 # r1 \<Rightarrow>
                if continuation b1
                then unit_of ((unat b0 - 0xC0) * 64 + (unat b1 - 0x80)) # utf8_decode r1
                else 0xFFFD # utf8_decode r)"
proof -
  have f: "(unat b0 < 0x80) = False" "(0xC2 \<le> unat b0 \<and> unat b0 \<le> 0xDF) = True"
    using assms by auto
  show ?thesis
    unfolding utf8_decode.simps(2) [of b0 r] Let_def
    by (simp only: f if_False if_True)
qed

lemma decode_lead3:
  assumes "0xE0 \<le> unat b0" "unat b0 \<le> 0xEF"
  shows "utf8_decode (b0 # r) =
           (case r of
              [] \<Rightarrow> [0xFFFD]
            | b1 # r1 \<Rightarrow>
                if (if unat b0 = 0xE0 then 0xA0 else 0x80) \<le> unat b1
                   \<and> unat b1 \<le> (if unat b0 = 0xED then 0x9F else 0xBF)
                then
                  (case r1 of
                     [] \<Rightarrow> [0xFFFD]
                   | b2 # r2 \<Rightarrow>
                       if continuation b2
                       then unit_of (((unat b0 - 0xE0) * 64 + (unat b1 - 0x80)) * 64
                                         + (unat b2 - 0x80)) # utf8_decode r2
                       else 0xFFFD # utf8_decode r1)
                else 0xFFFD # utf8_decode r)"
proof -
  have f: "(unat b0 < 0x80) = False" "(0xC2 \<le> unat b0 \<and> unat b0 \<le> 0xDF) = False"
    "(0xE0 \<le> unat b0 \<and> unat b0 \<le> 0xEF) = True"
    using assms by auto
  show ?thesis
    unfolding utf8_decode.simps(2) [of b0 r] Let_def
    by (simp only: f if_False if_True)
qed

lemma decode_lead4:
  assumes "0xF0 \<le> unat b0" "unat b0 \<le> 0xF4"
  shows "utf8_decode (b0 # r) =
           (case r of
              [] \<Rightarrow> [0xFFFD]
            | b1 # r1 \<Rightarrow>
                if (if unat b0 = 0xF0 then 0x90 else 0x80) \<le> unat b1
                   \<and> unat b1 \<le> (if unat b0 = 0xF4 then 0x8F else 0xBF)
                then
                  (case r1 of
                     [] \<Rightarrow> [0xFFFD]
                   | b2 # r2 \<Rightarrow>
                       if continuation b2 then
                         (case r2 of
                            [] \<Rightarrow> [0xFFFD]
                          | b3 # r3 \<Rightarrow>
                              if continuation b3 then
                                unit_of (0xD800 + ((((unat b0 - 0xF0) * 64 + (unat b1 - 0x80)) * 64
                                            + (unat b2 - 0x80)) * 64 + (unat b3 - 0x80) - 0x10000) div 1024)
                                  # unit_of (0xDC00 + ((((unat b0 - 0xF0) * 64 + (unat b1 - 0x80)) * 64
                                            + (unat b2 - 0x80)) * 64 + (unat b3 - 0x80) - 0x10000) mod 1024)
                                  # utf8_decode r3
                              else 0xFFFD # utf8_decode r2)
                       else 0xFFFD # utf8_decode r1)
                else 0xFFFD # utf8_decode r)"
proof -
  have f: "(unat b0 < 0x80) = False" "(0xC2 \<le> unat b0 \<and> unat b0 \<le> 0xDF) = False"
    "(0xE0 \<le> unat b0 \<and> unat b0 \<le> 0xEF) = False"
    "(0xF0 \<le> unat b0 \<and> unat b0 \<le> 0xF4) = True"
    using assms by auto
  show ?thesis
    unfolding utf8_decode.simps(2) [of b0 r] Let_def
    by (simp only: f if_False if_True)
qed

lemma isWellFormed_utf8_decode: "isWellFormed (utf8_decode bs)"
proof (induction "length bs" arbitrary: bs rule: less_induct)
  case less
  show ?case
  proof (cases bs)
    case Nil
    then show ?thesis by simp
  next
    case (Cons b0 r)
    have t0: "isWellFormed (utf8_decode r)" using less.hyps [of r] Cons by simp
    have rep: "isWellFormed (0xFFFD # utf8_decode r)" using t0 by (rule wf_step_replacement)
    have one: "isWellFormed [0xFFFD]" by (simp add: replacement_not_surrogate)
    consider (one) "unat b0 < 0x80"
      | (two) "0xC2 \<le> unat b0" "unat b0 \<le> 0xDF"
      | (three) "0xE0 \<le> unat b0" "unat b0 \<le> 0xEF"
      | (four) "0xF0 \<le> unat b0" "unat b0 \<le> 0xF4"
      | (bad) "0x80 \<le> unat b0" "unat b0 < 0xC2 \<or> 0xF4 < unat b0"
      by atomize_elim linarith
    then show ?thesis
    proof cases
      case one
      have "isWellFormed (unit_of (unat b0) # utf8_decode r)"
        using t0 one by (intro wf_step_plain) linarith+
      then show ?thesis unfolding Cons decode_lead1 [OF one] .
    next
      case bad
      show ?thesis unfolding Cons decode_lead_bad [OF bad] by (rule rep)
    next
      case two
      show ?thesis
      proof (cases r)
        case Nil
        show ?thesis unfolding Cons decode_lead2 [OF two] Nil list.case by (rule one)
      next
        case r: (Cons b1 r1)
        have t1: "isWellFormed (utf8_decode r1)" using less.hyps [of r1] Cons r by simp
        show ?thesis
        proof (cases "continuation b1")
          case False
          then show ?thesis
            unfolding Cons decode_lead2 [OF two] using rep by (simp only: r list.case if_False)
        next
          case True
          then have b1: "0x80 \<le> unat b1" "unat b1 \<le> 0xBF" by (simp_all add: continuation_def)
          have "isWellFormed (unit_of ((unat b0 - 0xC0) * 64 + (unat b1 - 0x80)) # utf8_decode r1)"
            using t1 two b1 by (intro wf_step_plain) linarith+
          then show ?thesis
            unfolding Cons decode_lead2 [OF two] using True by (simp only: r list.case if_True)
        qed
      qed
    next
      case three
      show ?thesis
      proof (cases r)
        case Nil
        show ?thesis unfolding Cons decode_lead3 [OF three] Nil list.case by (rule one)
      next
        case r: (Cons b1 r1)
        have t1: "isWellFormed (utf8_decode r1)" using less.hyps [of r1] Cons r by simp
        let ?ok = "(if unat b0 = 0xE0 then 0xA0 else 0x80) \<le> unat b1
                   \<and> unat b1 \<le> (if unat b0 = 0xED then 0x9F else 0xBF)"
        show ?thesis
        proof (cases ?ok)
          case False
          then have "?ok = False" by simp
          then show ?thesis
            unfolding Cons decode_lead3 [OF three] using rep by (simp only: r list.case if_False)
        next
          case ok: True
          then have okT: "?ok = True" by simp
          have b1: "0x80 \<le> unat b1" "unat b1 \<le> 0xBF" "unat b0 = 0xED \<Longrightarrow> unat b1 \<le> 0x9F"
            using ok by (auto split: if_splits)
          show ?thesis
          proof (cases r1)
            case Nil
            show ?thesis
              unfolding Cons decode_lead3 [OF three] using one
              by (simp only: r Nil list.case okT if_True)
          next
            case r1: (Cons b2 r2)
            have t2: "isWellFormed (utf8_decode r2)" using less.hyps [of r2] Cons r r1 by simp
            show ?thesis
            proof (cases "continuation b2")
              case False
              have "isWellFormed (0xFFFD # utf8_decode r1)" using t1 by (rule wf_step_replacement)
              then show ?thesis
                unfolding Cons decode_lead3 [OF three] using False
                by (simp only: r r1 list.case okT if_True if_False)
            next
              case True
              then have b2: "0x80 \<le> unat b2" "unat b2 \<le> 0xBF"
                by (simp_all add: continuation_def)
              define a where "a = unat b0 - 0xE0"
              define b where "b = unat b1 - 0x80"
              define d where "d = unat b2 - 0x80"
              define v where "v = (a * 64 + b) * 64 + d"
              have bd: "a \<le> 15" "b \<le> 63" "d \<le> 63"
                unfolding a_def b_def d_def using three b1 b2 by linarith+
              have "v < 0xD800 \<or> 0xDFFF < v"
              proof (cases "unat b0 = 0xED")
                case True
                with b1(3) have "a \<le> 13" "b \<le> 31" unfolding a_def b_def by linarith+
                from digits3_le [OF this bd(3)] show ?thesis unfolding v_def by simp
              next
                case False
                then consider "unat b0 \<le> 0xEC" | "0xEE \<le> unat b0" by linarith
                then show ?thesis
                proof cases
                  case 1
                  then have "a \<le> 12" unfolding a_def by linarith
                  from digits3_le [OF this bd(2,3)] show ?thesis unfolding v_def by simp
                next
                  case 2
                  then have "14 \<le> a" unfolding a_def by linarith
                  from digits3_le [OF this, of 0 b 0 d] show ?thesis unfolding v_def by simp
                qed
              qed
              moreover have "v < 65536"
                using digits3_le [OF bd] unfolding v_def by simp
              ultimately have "isWellFormed (unit_of v # utf8_decode r2)"
                using t2 by (intro wf_step_plain)
              then show ?thesis
                unfolding Cons decode_lead3 [OF three] v_def a_def b_def d_def using True
                by (simp only: r r1 list.case okT if_True)
            qed
          qed
        qed
      qed
    next
      case four
      show ?thesis
      proof (cases r)
        case Nil
        show ?thesis unfolding Cons decode_lead4 [OF four] Nil list.case by (rule one)
      next
        case r: (Cons b1 r1)
        have t1: "isWellFormed (utf8_decode r1)" using less.hyps [of r1] Cons r by simp
        let ?ok = "(if unat b0 = 0xF0 then 0x90 else 0x80) \<le> unat b1
                   \<and> unat b1 \<le> (if unat b0 = 0xF4 then 0x8F else 0xBF)"
        show ?thesis
        proof (cases ?ok)
          case False
          then have "?ok = False" by simp
          then show ?thesis
            unfolding Cons decode_lead4 [OF four] using rep by (simp only: r list.case if_False)
        next
          case ok: True
          then have okT: "?ok = True" by simp
          have b1: "0x80 \<le> unat b1" "unat b1 \<le> 0xBF" "unat b0 = 0xF0 \<Longrightarrow> 0x90 \<le> unat b1"
            "unat b0 = 0xF4 \<Longrightarrow> unat b1 \<le> 0x8F"
            using ok by (auto split: if_splits)
          show ?thesis
          proof (cases r1)
            case Nil
            show ?thesis
              unfolding Cons decode_lead4 [OF four] using one
              by (simp only: r Nil list.case okT if_True)
          next
            case r1: (Cons b2 r2)
            have t2: "isWellFormed (utf8_decode r2)" using less.hyps [of r2] Cons r r1 by simp
            show ?thesis
            proof (cases "continuation b2")
              case False
              have "isWellFormed (0xFFFD # utf8_decode r1)" using t1 by (rule wf_step_replacement)
              then show ?thesis
                unfolding Cons decode_lead4 [OF four] using False
                by (simp only: r r1 list.case okT if_True if_False)
            next
              case c2: True
              then have b2: "0x80 \<le> unat b2" "unat b2 \<le> 0xBF"
                by (simp_all add: continuation_def)
              show ?thesis
              proof (cases r2)
                case Nil
                show ?thesis
                  unfolding Cons decode_lead4 [OF four] using one c2
                  by (simp only: r r1 Nil list.case okT if_True)
              next
                case r2: (Cons b3 r3)
                have t3: "isWellFormed (utf8_decode r3)"
                  using less.hyps [of r3] Cons r r1 r2 by simp
                show ?thesis
                proof (cases "continuation b3")
                  case False
                  have "isWellFormed (0xFFFD # utf8_decode r2)"
                    using t2 by (rule wf_step_replacement)
                  then show ?thesis
                    unfolding Cons decode_lead4 [OF four] using False c2
                    by (simp only: r r1 r2 list.case okT if_True if_False)
                next
                  case c3: True
                  then have b3: "0x80 \<le> unat b3" "unat b3 \<le> 0xBF"
                    by (simp_all add: continuation_def)
                  define a where "a = unat b0 - 0xF0"
                  define b where "b = unat b1 - 0x80"
                  define d where "d = unat b2 - 0x80"
                  define e where "e = unat b3 - 0x80"
                  define cp where "cp = ((a * 64 + b) * 64 + d) * 64 + e"
                  have bd: "a \<le> 4" "b \<le> 63" "d \<le> 63" "e \<le> 63"
                    unfolding a_def b_def d_def e_def using four b1 b2 b3 by linarith+
                  have lo: "0x10000 \<le> cp"
                  proof (cases "unat b0 = 0xF0")
                    case True
                    with b1(3) have "16 \<le> b" unfolding b_def by linarith
                    from digits4_le [OF _ this, of 0 a 0 d 0 e] show ?thesis
                      unfolding cp_def by simp
                  next
                    case False
                    with four have "1 \<le> a" unfolding a_def by linarith
                    from digits4_le [OF this, of 0 b 0 d 0 e] show ?thesis
                      unfolding cp_def by simp
                  qed
                  have hi: "cp \<le> 0x10FFFF"
                  proof (cases "unat b0 = 0xF4")
                    case True
                    with b1(4) have "b \<le> 15" unfolding b_def by linarith
                    from digits4_le [OF bd(1) this bd(3,4)] show ?thesis
                      unfolding cp_def by simp
                  next
                    case False
                    with four have "a \<le> 3" unfolding a_def by linarith
                    from digits4_le [OF this bd(2,3,4)] show ?thesis
                      unfolding cp_def by simp
                  qed
                  have "isWellFormed (unit_of (0xD800 + (cp - 0x10000) div 1024)
                           # unit_of (0xDC00 + (cp - 0x10000) mod 1024) # utf8_decode r3)"
                    using t3 lo hi by (rule wf_step_pair)
                  then show ?thesis
                    unfolding Cons decode_lead4 [OF four] cp_def a_def b_def d_def e_def using c2 c3
                    by (simp only: r r1 r2 list.case okT if_True)
                qed
              qed
            qed
          qed
        qed
      qed
    qed
  qed
qed

lemma encode_replacement: "utf8_encode (0xFFFD # w) = 0xEF # 0xBF # 0xBD # utf8_encode w"
  unfolding utf8_encode.simps(2) [of "0xFFFD" w]
  by (simp add: is_high_surrogate_def is_low_surrogate_def byte_of_def Let_def
      del: utf8_encode.simps(2))

lemma utf8_encode_toWellFormed: "utf8_encode (toWellFormed s) = utf8_encode s"
proof (induction "length s" arbitrary: s rule: less_induct)
  case less
  show ?case
  proof (cases s)
    case Nil
    then show ?thesis by simp
  next
    case (Cons u us)
    have ih: "utf8_encode (toWellFormed us) = utf8_encode us"
      using less.hyps [of us] Cons by simp
    show ?thesis
    proof (cases "is_high_surrogate u")
      case high: True
      show ?thesis
      proof (cases us)
        case Nil
        have "toWellFormed s = [0xFFFD]" using high Nil Cons by simp
        then show ?thesis
          using encode_high_end [OF high] encode_replacement [of "[]"] Nil Cons
          by (simp del: utf8_encode.simps(2))
      next
        case us: (Cons v vs)
        have ih': "utf8_encode (toWellFormed vs) = utf8_encode vs"
          using less.hyps [of vs] Cons us by simp
        show ?thesis
        proof (cases "is_low_surrogate v")
          case True
          have "toWellFormed s = u # v # toWellFormed vs" using high True us Cons by simp
          then show ?thesis
            using encode_pair [OF high True, of "toWellFormed vs"] encode_pair [OF high True, of vs]
              ih' us Cons
            by (simp del: utf8_encode.simps(2))
        next
          case False
          have "toWellFormed s = 0xFFFD # toWellFormed us" using high False us Cons by simp
          then show ?thesis
            using encode_replacement [of "toWellFormed us"] encode_high_lone [OF high False, of vs]
              ih us Cons
            by (simp del: utf8_encode.simps(2))
        qed
      qed
    next
      case nh: False
      show ?thesis
      proof (cases "is_low_surrogate u")
        case True
        have "toWellFormed s = 0xFFFD # toWellFormed us" using nh True Cons by simp
        then show ?thesis
          using encode_replacement [of "toWellFormed us"] encode_low [OF True, of us] ih Cons
          by (simp del: utf8_encode.simps(2))
      next
        case False
        have "toWellFormed s = u # toWellFormed us" using nh False Cons by simp
        then show ?thesis
          using encode_not_high [OF nh, of "toWellFormed us"] encode_not_high [OF nh, of us] ih Cons
          by (simp del: utf8_encode.simps(2))
      qed
    qed
  qed
qed

lemma utf8_encode_eq_iff:
  "utf8_encode a = utf8_encode b \<longleftrightarrow> toWellFormed a = toWellFormed b"
proof
  assume "utf8_encode a = utf8_encode b"
  then have "utf8_decode (utf8_encode a) = utf8_decode (utf8_encode b)" by simp
  then show "toWellFormed a = toWellFormed b" by (simp only: utf8_decode_encode)
next
  assume "toWellFormed a = toWellFormed b"
  then have "utf8_encode (toWellFormed a) = utf8_encode (toWellFormed b)" by simp
  then show "utf8_encode a = utf8_encode b" by (simp only: utf8_encode_toWellFormed)
qed

lemma colon_not_low: "\<not> is_low_surrogate 0x3A"
  by (simp add: is_low_surrogate_def)

lemma js_colon: "js '':'' = [0x3A]"
  by (simp add: js_def)

lemma utf8_encode_combined:
  "utf8_encode (p @ js '':'' @ r) = utf8_encode p @ utf8_encode (0x3A # r)"
  unfolding js_colon using utf8_encode_append [OF colon_not_low, of p r] by simp

lemma utf8_encode_combined_eq_iff:
  "utf8_encode (p @ js '':'' @ r) = utf8_encode (p' @ js '':'' @ r)
     \<longleftrightarrow> toWellFormed p = toWellFormed p'"
  by (simp only: utf8_encode_combined same_append_eq append_same_eq utf8_encode_eq_iff)

section \<open>Properties of the order store and of the trigger test\<close>

lemma cancelOrder_status:
  "r \<in> set (snd (cancelOrder i u db)) \<Longrightarrow> status r = Cancelled \<Longrightarrow>
   \<exists>r0 \<in> set db. (status r0 = Cancelled \<and> r = r0) \<or>
                  (cancel_matches i u r0 \<and> r = r0\<lparr>status := Cancelled\<rparr>)"
  by (auto simp: cancelOrder_def split: if_splits)

lemma cancelOrder_not_active_unchanged:
  "\<forall>r \<in> set db. order_id r = i \<longrightarrow> status r \<noteq> Active \<Longrightarrow> cancelOrder i u db = (False, db)"
  by (induction db) (auto simp: cancelOrder_def cancel_matches_def)

lemma cancelOrder_not_owner_unchanged:
  "\<forall>r \<in> set db. order_id r = i \<longrightarrow> telegramUserId r \<noteq> u \<Longrightarrow> cancelOrder i u db = (False, db)"
  by (induction db) (auto simp: cancelOrder_def cancel_matches_def)

text \<open>
  C1. The claim asks that \<open>markOrderTriggered\<close> be a compare-and-set (only an order that
  is still \<open>active\<close> moves to \<open>triggered\<close>) and that a triggered, executed or failed
  order is never modified by a later transition. \<open>cancelOrder\<close> is guarded that way, but
  the update of \<open>markOrderTriggered\<close> is conditioned on the id alone: run on an order
  that is already executed (or cancelled, failed, triggered) it sets the status back to
  \<open>triggered\<close> and overwrites the trigger time.
\<close>

theorem markOrderTriggered_not_compare_and_set:
  "markOrderTriggered t (order_id r) [r\<lparr>status := Executed\<rparr>]
     = [r\<lparr>status := Triggered, triggeredAt := Some t\<rparr>]
   \<and> markOrderTriggered t (order_id r) [r\<lparr>status := Cancelled\<rparr>]
     = [r\<lparr>status := Triggered, triggeredAt := Some t\<rparr>]
   \<and> markOrderTriggered t2 (order_id r) (markOrderTriggered t1 (order_id r) [r\<lparr>status := Active\<rparr>])
     = [r\<lparr>status := Triggered, triggeredAt := Some t2\<rparr>]"
  by (simp add: markOrderTriggered_def)

lemma order_matches_iff:
  "order_matches (Some (price, marketCap)) order \<longleftrightarrow>
     (let v = (if triggerType order = Price then price else marketCap)
      in v \<noteq> 0 \<and> checkTriggerCondition v (triggerValue order) (triggerCondition order))"
  by (simp add: order_matches_def Let_def)

text \<open>
  C8. The trigger test is inclusive at the boundary: an \<open>above\<close> trigger holds exactly
  when the current value is at least the target, a \<open>below\<close> trigger exactly when it is
  at most the target; with target 100, the values 100 and 150 match \<open>above\<close> and 99 does
  not, and the values 100 and 50 match \<open>below\<close> and 101 does not. The same holds of an
  order in the polling loop, on the price and on the market cap.
\<close>

theorem checkTriggerCondition_inclusive:
  "checkTriggerCondition v t Above = (v \<ge> t)
   \<and> checkTriggerCondition v t Below = (v \<le> t)
   \<and> checkTriggerCondition 100 100 Above \<and> checkTriggerCondition 150 100 Above
   \<and> \<not> checkTriggerCondition 99 100 Above
   \<and> checkTriggerCondition 100 100 Below \<and> checkTriggerCondition 50 100 Below
   \<and> \<not> checkTriggerCondition 101 100 Below
   \<and> order_matches (Some (100, m))
        (ord\<lparr>triggerType := Price, triggerCondition := Above, triggerValue := 100\<rparr>)
   \<and> order_matches (Some (150, m))
        (ord\<lparr>triggerType := Price, triggerCondition := Above, triggerValue := 100\<rparr>)
   \<and> \<not> order_matches (Some (99, m))
        (ord\<lparr>triggerType := Price, triggerCondition := Above, triggerValue := 100\<rparr>)
   \<and> order_matches (Some (p, 100))
        (ord\<lparr>triggerType := Marketcap, triggerCondition := Below, triggerValue := 100\<rparr>)
   \<and> order_matches (Some (p, 50))
        (ord\<lparr>triggerType := Marketcap, triggerCondition := Below, triggerValue := 100\<rparr>)
   \<and> \<not> order_matches (Some (p, 101))
        (ord\<lparr>triggerType := Marketcap, triggerCondition := Below, triggerValue := 100\<rparr>)"
  by (simp add: order_matches_def)

section \<open>Properties of the cipher primitives\<close>

lemma unat_word16: "n < 65536 \<Longrightarrow> unat (word_of_nat n :: 16 word) = n"
  by (simp add: unat_of_nat)

lemma hex_value_digit:
  assumes "n < 16"
  shows "hex_value (hex_digit n) = Some n"
proof (cases "n < 10")
  case True
  have u: "unat (word_of_nat (48 + n) :: 16 word) = 48 + n"
    using True by (intro unat_word16) linarith
  show ?thesis
    unfolding hex_digit_def hex_value_def Let_def if_P [OF True] u using True by simp
next
  case False
  have u: "unat (word_of_nat (87 + n) :: 16 word) = 87 + n"
    using assms by (intro unat_word16) linarith
  show ?thesis
    unfolding hex_digit_def hex_value_def Let_def if_not_P [OF False] u using assms False by simp
qed

lemma hex_digit_not_colon: "n < 16 \<Longrightarrow> hex_digit n \<noteq> 0x3A"
proof
  assume n: "n < 16" and "hex_digit n = 0x3A"
  then have "hex_value (0x3A) = Some n" using hex_value_digit by metis
  then show False by (simp add: hex_value_def)
qed

lemma from_hex_to_hex: "from_hex (to_hex b) = b"
proof (induction b)
  case Nil
  show ?case by (simp add: to_hex_def)
next
  case (Cons w b)
  have d: "unat w div 16 < 16"
    using unsigned_less [of w, where ?'a = nat] by (simp add: less_mult_imp_div_less)
  have m: "unat w mod 16 < 16" by simp
  from Cons show ?case
    by (simp add: to_hex_def hex_value_digit [OF d] hex_value_digit [OF m])
qed

lemma colon_notin_to_hex: "0x3A \<notin> set (to_hex b)"
proof (induction b)
  case Nil
  show ?case by (simp add: to_hex_def)
next
  case (Cons w b)
  have d: "unat w div 16 < 16"
    using unsigned_less [of w, where ?'a = nat] by (simp add: less_mult_imp_div_less)
  have m: "unat w mod 16 < 16" by simp
  from Cons hex_digit_not_colon [OF d] hex_digit_not_colon [OF m] show ?case
    by (auto simp: to_hex_def)
qed

lemma split_colon_not_Nil: "split_colon s \<noteq> []"
  by (induction s) (auto split: list.splits)

lemma split_colon_plain: "0x3A \<notin> set a \<Longrightarrow> split_colon a = [a]"
  by (induction a) auto

lemma split_colon_field:
  "0x3A \<notin> set a \<Longrightarrow> split_colon (a @ 0x3A # rest) = a # split_colon rest"
  by (induction a) auto

lemma toy_pbkdf2_length: "pbkdf2_length toy_crypto"
  by (auto simp: pbkdf2_length_def toy_crypto_def)

lemma toy_gcm_correct: "gcm_correct toy_crypto"
  by (auto simp: gcm_correct_def toy_crypto_def comp_def)

lemma toy_gcm_tag_binds: "gcm_tag_binds toy_crypto key key' iv pt"
  by (auto simp: gcm_tag_binds_def toy_crypto_def)

lemma toy_cbc_correct: "cbc_correct toy_crypto"
  by (auto simp: cbc_correct_def toy_crypto_def comp_def KEY_LENGTH_def)

lemma split2: "split_colon (to_hex a @ 0x3A # to_hex b) = [to_hex a, to_hex b]"
  by (simp add: split_colon_field split_colon_plain colon_notin_to_hex)

lemma split3:
  "split_colon (to_hex a @ 0x3A # to_hex b @ 0x3A # to_hex d)
     = [to_hex a, to_hex b, to_hex d]"
  by (simp add: split_colon_field split_colon_plain colon_notin_to_hex)

lemma split4:
  "split_colon (to_hex a @ 0x3A # to_hex b @ 0x3A # to_hex d @ 0x3A # to_hex e)
     = [to_hex a, to_hex b, to_hex d, to_hex e]"
  by (simp add: split_colon_field split_colon_plain colon_notin_to_hex)

lemma hashPassword_eq:
  "hashPassword c p u salt =
     to_hex salt @ 0x3A
       # to_hex (pbkdf2Sync c (utf8_encode (p @ js '':'' @ number_toString u)) salt
                   PBKDF2_ITERATIONS KEY_LENGTH)"
  by (simp add: hashPassword_def js_colon)

lemma verifyPassword_eq:
  "verifyPassword c p' u (hashPassword c p u salt) =
     timingSafeEqual
       (pbkdf2Sync c (utf8_encode (p @ js '':'' @ number_toString u)) salt
          PBKDF2_ITERATIONS KEY_LENGTH)
       (pbkdf2Sync c (utf8_encode (p' @ js '':'' @ number_toString u)) salt
          PBKDF2_ITERATIONS KEY_LENGTH)"
  unfolding hashPassword_eq verifyPassword_def split2 by (simp add: from_hex_to_hex)

lemma verifyPassword_own_hash: "verifyPassword c p u (hashPassword c p u salt) = Inr True"
  by (simp add: verifyPassword_eq timingSafeEqual_def)

lemma deriveKey_same_encoding:
  "toWellFormed p' = toWellFormed p \<Longrightarrow>
   deriveKeyFromPassword c p' u salt = deriveKeyFromPassword c p u salt"
  using utf8_encode_combined_eq_iff [of p' "number_toString u" p]
  by (simp add: deriveKeyFromPassword_def)

lemma verifyPassword_same_encoding:
  assumes "toWellFormed p' = toWellFormed p"
  shows "verifyPassword c p' u (hashPassword c p u salt) = Inr True"
proof -
  from assms have "utf8_encode (p' @ js '':'' @ number_toString u)
                     = utf8_encode (p @ js '':'' @ number_toString u)"
    by (simp only: utf8_encode_combined_eq_iff)
  then show ?thesis by (simp add: verifyPassword_eq timingSafeEqual_def)
qed

lemma verifyPassword_other_encoding:
  assumes "pbkdf2_length c" "toWellFormed p' \<noteq> toWellFormed p"
    and "pbkdf2_separates c salt (utf8_encode (p @ js '':'' @ number_toString u))
           (utf8_encode (p' @ js '':'' @ number_toString u))"
  shows "verifyPassword c p' u (hashPassword c p u salt) = Inr False"
proof -
  from assms(2) have "utf8_encode (p @ js '':'' @ number_toString u)
                        \<noteq> utf8_encode (p' @ js '':'' @ number_toString u)"
    by (simp only: utf8_encode_combined_eq_iff) simp
  with assms(1,3) show ?thesis
    by (simp add: verifyPassword_eq timingSafeEqual_def pbkdf2_length_def pbkdf2_separates_def)
qed

lemma toWellFormed_eq_iff:
  "isWellFormed p \<Longrightarrow> isWellFormed p' \<Longrightarrow> toWellFormed p' = toWellFormed p \<longleftrightarrow> p' = p"
  by (simp add: toWellFormed_id)

lemma lone_surrogates:
  "toWellFormed [0xD800] = [0xFFFD]" "toWellFormed [0xD801] = [0xFFFD]"
  "\<not> isWellFormed [0xD800]"
  by (simp_all add: is_high_surrogate_def is_low_surrogate_def)

lemma toy_pbkdf2_separates:
  "pbkdf2_separates toy_crypto (replicate 32 0)
     (utf8_encode (js ''abcdef'' @ js '':'' @ number_toString 42))
     (utf8_encode (js ''abcdeg'' @ js '':'' @ number_toString 42))"
  by (simp add: pbkdf2_separates_def toy_crypto_def number_toString_def nat_toString.simps
      js_def byte_of_def KEY_LENGTH_def)

text \<open>
  C3. The claim has \<open>verifyPassword\<close> reject every password \<open>p'\<close> other than the one that
  was hashed. A password reaches PBKDF2 as its UTF-8 encoding, and two strings that differ
  only in unpaired surrogates have one encoding: the password that consists of the one
  code unit D801 verifies against the hash of the password that consists of the one code
  unit D800, whatever the library computes.
\<close>

theorem verifyPassword_accepts_another_password:
  "[0xD801] \<noteq> [0xD800 :: 16 word]
   \<and> (\<forall>c u salt. verifyPassword c [0xD801] u (hashPassword c [0xD800] u salt) = Inr True)"
proof -
  have "toWellFormed [0xD801] = toWellFormed [0xD800]" by (simp only: lone_surrogates)
  then have "verifyPassword c [0xD801] u (hashPassword c [0xD800] u salt) = Inr True"
    for c u salt
    by (rule verifyPassword_same_encoding)
  then show ?thesis by simp
qed

text \<open>
  C3, as amended. A password verifies against its own stored hash, whatever salt
  \<open>hashPassword\<close> drew, and so does every password with the same UTF-8 encoding, that is,
  the same string once each unpaired surrogate is replaced by U+FFFD (\<open>toWellFormed\<close>).
  A password \<open>p'\<close> with another encoding is rejected (the result is \<open>false\<close>, not an
  exception) whenever PBKDF2 returns the requested number of bytes and does not collide
  on the encodings of \<open>p:u\<close> and \<open>p':u\<close>. Two well-formed passwords have the same encoding
  only if they are equal.
\<close>

theorem verifyPassword_hashPassword:
  "verifyPassword c p u (hashPassword c p u salt) = Inr True
   \<and> (toWellFormed p' = toWellFormed p
        \<longrightarrow> verifyPassword c p' u (hashPassword c p u salt) = Inr True)
   \<and> (pbkdf2_length c \<longrightarrow> toWellFormed p' \<noteq> toWellFormed p
        \<longrightarrow> pbkdf2_separates c salt (utf8_encode (p @ js '':'' @ number_toString u))
              (utf8_encode (p' @ js '':'' @ number_toString u))
        \<longrightarrow> verifyPassword c p' u (hashPassword c p u salt) = Inr False)
   \<and> (isWellFormed p \<longrightarrow> isWellFormed p'
        \<longrightarrow> (toWellFormed p' = toWellFormed p \<longleftrightarrow> p' = p))"
proof (intro conjI impI)
  show "verifyPassword c p u (hashPassword c p u salt) = Inr True"
    by (rule verifyPassword_own_hash)
next
  assume "toWellFormed p' = toWellFormed p"
  then show "verifyPassword c p' u (hashPassword c p u salt) = Inr True"
    by (rule verifyPassword_same_encoding)
next
  assume "pbkdf2_length c" "toWellFormed p' \<noteq> toWellFormed p"
    "pbkdf2_separates c salt (utf8_encode (p @ js '':'' @ number_toString u))
       (utf8_encode (p' @ js '':'' @ number_toString u))"
  then show "verifyPassword c p' u (hashPassword c p u salt) = Inr False"
    by (rule verifyPassword_other_encoding)
next
  assume "isWellFormed p" "isWellFormed p'"
  then show "toWellFormed p' = toWellFormed p \<longleftrightarrow> p' = p"
    by (rule toWellFormed_eq_iff)
qed

theorem verifyPassword_hashPassword_witness:
  "verifyPassword toy_crypto [0xD800] 42 (hashPassword toy_crypto [0xD800] 42 (replicate 32 0))
     = Inr True
   \<and> toWellFormed [0xD801] = toWellFormed [0xD800]
   \<and> verifyPassword toy_crypto [0xD801] 42 (hashPassword toy_crypto [0xD800] 42 (replicate 32 0))
       = Inr True
   \<and> pbkdf2_length toy_crypto
   \<and> isWellFormed (js ''abcdef'') \<and> isWellFormed (js ''abcdeg'')
   \<and> js ''abcdeg'' \<noteq> js ''abcdef''
   \<and> toWellFormed (js ''abcdeg'') \<noteq> toWellFormed (js ''abcdef'')
   \<and> pbkdf2_separates toy_crypto (replicate 32 0)
        (utf8_encode (js ''abcdef'' @ js '':'' @ number_toString 42))
        (utf8_encode (js ''abcdeg'' @ js '':'' @ number_toString 42))
   \<and> verifyPassword toy_crypto (js ''abcdef'') 42
        (hashPassword toy_crypto (js ''abcdef'') 42 (replicate 32 0)) = Inr True
   \<and> verifyPassword toy_crypto (js ''abcdeg'') 42
        (hashPassword toy_crypto (js ''abcdef'') 42 (replicate 32 0)) = Inr False"
proof -
  have e: "toWellFormed [0xD801] = toWellFormed [0xD800]" by (simp only: lone_surrogates)
  have w: "isWellFormed (js ''abcdef'')" "isWellFormed (js ''abcdeg'')"
    by (rule isWellFormed_js)+
  have ne: "js ''abcdeg'' \<noteq> js ''abcdef''" by (simp add: js_eq_iff)
  note t = verifyPassword_hashPassword [of toy_crypto "js ''abcdef''" 42 "replicate 32 0"
      "js ''abcdeg''"]
  from t w ne have d: "toWellFormed (js ''abcdeg'') \<noteq> toWellFormed (js ''abcdef'')" by blast
  from t toy_pbkdf2_length d toy_pbkdf2_separates
  have a: "verifyPassword toy_crypto (js ''abcdef'') 42
        (hashPassword toy_crypto (js ''abcdef'') 42 (replicate 32 0)) = Inr True"
    and b: "verifyPassword toy_crypto (js ''abcdeg'') 42
        (hashPassword toy_crypto (js ''abcdef'') 42 (replicate 32 0)) = Inr False"
    by blast+
  from verifyPassword_hashPassword [of toy_crypto "[0xD800]" 42 "replicate 32 0" "[0xD801]"] e
  have s: "verifyPassword toy_crypto [0xD800] 42
             (hashPassword toy_crypto [0xD800] 42 (replicate 32 0)) = Inr True"
    and s': "verifyPassword toy_crypto [0xD801] 42
             (hashPassword toy_crypto [0xD800] 42 (replicate 32 0)) = Inr True"
    by blast+
  show ?thesis
    by (intro conjI) (rule s e s' toy_pbkdf2_length w ne d toy_pbkdf2_separates a b)+
qed

lemma gcm_decipher_Some_iff:
  "gcm_decipher c key iv tag e = Some s \<longleftrightarrow>
     (\<exists>x y. gcm_update c key iv tag (from_hex e) = Some x
          \<and> gcm_final c key iv tag (from_hex e) = Some y \<and> s = utf8_decode (x @ y))"
  by (auto simp: gcm_decipher_def split: option.splits)

lemma cbc_decipher_Some_iff:
  "cbc_decipher c key iv e = Some s \<longleftrightarrow>
     (\<exists>x y. cbc_update c key iv (from_hex e) = Some x
          \<and> cbc_final c key iv (from_hex e) = Some y \<and> s = utf8_decode (x @ y))"
  by (auto simp: cbc_decipher_def split: option.splits)

lemma cbc_decipher_None_iff:
  "cbc_decipher c key iv e = None \<longleftrightarrow>
     (cbc_update c key iv (from_hex e) = None \<or> cbc_final c key iv (from_hex e) = None)"
  by (auto simp: cbc_decipher_def split: option.splits)

lemma gcm_decipher_final_None:
  "gcm_final c key iv tag (from_hex e) = None \<Longrightarrow> gcm_decipher c key iv tag e = None"
  by (simp add: gcm_decipher_def split: option.splits)

lemma gcm_decipher_wf: "gcm_decipher c key iv tag e = Some s \<Longrightarrow> isWellFormed s"
  by (auto simp: gcm_decipher_Some_iff isWellFormed_utf8_decode)


lemma decryptWithPassword_wf: "decryptWithPassword c t p u = Some s \<Longrightarrow> isWellFormed s"
  by (auto simp: decryptWithPassword_def Let_def split: list.splits dest: gcm_decipher_wf)


lemma gcm_decipher_encrypt:
  assumes "gcm_correct c" "length key = KEY_LENGTH" "length iv = IV_LENGTH"
    and "gcm_encrypt c key iv (utf8_encode s) = (ct, tag)"
  shows "gcm_decipher c key iv tag (to_hex ct) = Some (toWellFormed s)"
proof -
  from assms obtain x y where "gcm_update c key iv tag ct = Some x"
    "gcm_final c key iv tag ct = Some y" "x @ y = utf8_encode s"
    unfolding gcm_correct_def by blast
  then show ?thesis
    by (simp add: gcm_decipher_Some_iff from_hex_to_hex utf8_decode_encode)
qed

lemma deriveKey_length:
  "pbkdf2_length c \<Longrightarrow> length (deriveKeyFromPassword c p u salt) = KEY_LENGTH"
  by (simp add: deriveKeyFromPassword_def pbkdf2_length_def)

lemma encryptWithPassword_eq:
  assumes "gcm_encrypt c (deriveKeyFromPassword c p u salt) iv (utf8_encode s) = (ct, tag)"
  shows "encryptWithPassword c s p u salt iv
           = to_hex salt @ 0x3A # to_hex iv @ 0x3A # to_hex tag @ 0x3A # to_hex ct"
  using assms by (simp add: encryptWithPassword_def)

lemma decrypt_of_encryptWithPassword:
  assumes "gcm_encrypt c (deriveKeyFromPassword c p u salt) iv (utf8_encode s) = (ct, tag)"
  shows "decryptWithPassword c (encryptWithPassword c s p u salt iv) p' u
           = gcm_decipher c (deriveKeyFromPassword c p' u salt) iv tag (to_hex ct)"
  unfolding encryptWithPassword_eq [OF assms] decryptWithPassword_def split4
  by (simp add: from_hex_to_hex)

lemma decryptWithPassword_same:
  assumes "pbkdf2_length c" "gcm_correct c" "length iv = IV_LENGTH"
  shows "decryptWithPassword c (encryptWithPassword c s p u salt iv) p u = Some (toWellFormed s)"
proof -
  obtain ct tag where enc:
    "gcm_encrypt c (deriveKeyFromPassword c p u salt) iv (utf8_encode s) = (ct, tag)"
    by (cases "gcm_encrypt c (deriveKeyFromPassword c p u salt) iv (utf8_encode s)")
  with assms show ?thesis
    by (simp add: decrypt_of_encryptWithPassword [OF enc] gcm_decipher_encrypt deriveKey_length)
qed

lemma decryptWithPassword_same_encoding:
  assumes "toWellFormed p' = toWellFormed p"
  shows "decryptWithPassword c (encryptWithPassword c s p u salt iv) p' u
           = decryptWithPassword c (encryptWithPassword c s p u salt iv) p u"
proof -
  obtain ct tag where enc:
    "gcm_encrypt c (deriveKeyFromPassword c p u salt) iv (utf8_encode s) = (ct, tag)"
    by (cases "gcm_encrypt c (deriveKeyFromPassword c p u salt) iv (utf8_encode s)")
  show ?thesis
    by (simp only: decrypt_of_encryptWithPassword [OF enc] deriveKey_same_encoding [OF assms])
qed

lemma session_encrypt_eq:
  assumes "gcm_encrypt c key iv (utf8_encode pk) = (ct, tag)"
  shows "session_encrypt c key iv pk = to_hex iv @ 0x3A # to_hex tag @ 0x3A # to_hex ct"
  using assms by (simp add: session_encrypt_def js_colon)

lemma session_decrypt_encrypt:
  assumes "gcm_correct c" "length key = KEY_LENGTH" "length iv = IV_LENGTH"
  shows "session_decrypt c key (session_encrypt c key iv pk) = Some (toWellFormed pk)"
proof -
  obtain ct tag where enc: "gcm_encrypt c key iv (utf8_encode pk) = (ct, tag)"
    by (cases "gcm_encrypt c key iv (utf8_encode pk)")
  show ?thesis
    unfolding session_encrypt_eq [OF enc] session_decrypt_def split3
    using gcm_decipher_encrypt [OF assms enc] by (simp add: from_hex_to_hex)
qed

lemma cbc_decipher_encrypt:
  assumes "cbc_correct c" "length key = KEY_LENGTH" "length iv = IV_LENGTH"
    and "cbc_encrypt c key iv (utf8_encode s) = Some ct"
  shows "cbc_decipher c key iv (to_hex ct) = Some (toWellFormed s)"
proof -
  from assms obtain x y where "cbc_update c key iv ct = Some x"
    "cbc_final c key iv ct = Some y" "x @ y = utf8_encode s"
    unfolding cbc_correct_def by blast
  then show ?thesis
    by (simp add: cbc_decipher_Some_iff from_hex_to_hex utf8_decode_encode)
qed

lemma encrypt_Inr:
  "encrypt c serverKey iv s = Inr blob \<Longrightarrow>
   \<exists>ct. cbc_encrypt c (from_hex serverKey) iv (utf8_encode s) = Some ct
        \<and> blob = to_hex iv @ 0x3A # to_hex ct"
  by (auto simp: encrypt_def Let_def js_colon split: option.splits)

lemma decryptLegacy_encrypt:
  assumes "cbc_correct c" "length (from_hex serverKey) = KEY_LENGTH" "length iv = IV_LENGTH"
    and "encrypt c serverKey iv s = Inr blob"
  shows "decryptLegacy c blob serverKey = Some (toWellFormed s)"
proof -
  from encrypt_Inr [OF assms(4)] obtain ct where
    ct: "cbc_encrypt c (from_hex serverKey) iv (utf8_encode s) = Some ct"
    and blob: "blob = to_hex iv @ 0x3A # to_hex ct" by blast
  show ?thesis
    unfolding blob decryptLegacy_def split2
    using cbc_decipher_encrypt [OF assms(1-3) ct] by (simp add: from_hex_to_hex)
qed

lemma decrypt_encrypt:
  assumes "cbc_correct c" "length (from_hex serverKey) = KEY_LENGTH" "length iv = IV_LENGTH"
    and "encrypt c serverKey iv s = Inr blob"
  shows "decrypt c serverKey blob = Inr (toWellFormed s)"
proof -
  from encrypt_Inr [OF assms(4)] obtain ct where
    ct: "cbc_encrypt c (from_hex serverKey) iv (utf8_encode s) = Some ct"
    and blob: "blob = to_hex iv @ 0x3A # to_hex ct" by blast
  show ?thesis
    unfolding blob decrypt_def split2
    using cbc_decipher_encrypt [OF assms(1-3) ct] by (simp add: from_hex_to_hex)
qed


lemma not_isLegacyFormat_encryptWithPassword:
  "\<not> isLegacyFormat (encryptWithPassword c s p u salt iv)"
proof -
  obtain ct tag where enc:
    "gcm_encrypt c (deriveKeyFromPassword c p u salt) iv (utf8_encode s) = (ct, tag)"
    by (cases "gcm_encrypt c (deriveKeyFromPassword c p u salt) iv (utf8_encode s)")
  show ?thesis
    unfolding encryptWithPassword_eq [OF enc] isLegacyFormat_def split4 by simp
qed

lemma toy_server_key_length: "length (from_hex toy_server_key) = KEY_LENGTH"
  by (simp add: toy_server_key_def js_def hex_value_def KEY_LENGTH_def)

lemma toy_encrypt:
  "encrypt toy_crypto toy_server_key (replicate 16 0) s
   = Inr (to_hex (replicate 16 0) @ js '':'' @ to_hex (map (\<lambda>b. b + 1) (utf8_encode s)))"
  using toy_server_key_length by (simp add: encrypt_def toy_crypto_def KEY_LENGTH_def)

lemma decryptWithPassword_other:
  assumes ne: "toWellFormed p' \<noteq> toWellFormed p"
    and sep: "pbkdf2_separates c salt (utf8_encode (p @ js '':'' @ number_toString u))
                (utf8_encode (p' @ js '':'' @ number_toString u))"
    and rej: "gcm_tag_binds c (deriveKeyFromPassword c p u salt)
                (deriveKeyFromPassword c p' u salt) iv (utf8_encode s)"
  shows "decryptWithPassword c (encryptWithPassword c s p u salt iv) p' u = None"
proof -
  obtain ct tag where enc:
    "gcm_encrypt c (deriveKeyFromPassword c p u salt) iv (utf8_encode s) = (ct, tag)"
    by (cases "gcm_encrypt c (deriveKeyFromPassword c p u salt) iv (utf8_encode s)")
  from ne have "utf8_encode (p @ js '':'' @ number_toString u)
                  \<noteq> utf8_encode (p' @ js '':'' @ number_toString u)"
    by (simp only: utf8_encode_combined_eq_iff) simp
  with sep have "deriveKeyFromPassword c p' u salt \<noteq> deriveKeyFromPassword c p u salt"
    by (auto simp: pbkdf2_separates_def deriveKeyFromPassword_def)
  with rej enc
  have "gcm_final c (deriveKeyFromPassword c p' u salt) iv tag ct = None"
    unfolding gcm_tag_binds_def by simp
  then show ?thesis
    by (simp add: decrypt_of_encryptWithPassword [OF enc] gcm_decipher_final_None from_hex_to_hex)
qed

text \<open>
  C2. The claim has the round trip return the secret for every secret string, and has
  every password other than \<open>p\<close> fail. The plaintext and the password pass through UTF-8.
  The secret that consists of the one code unit D800 (an unpaired surrogate) is never
  returned by \<open>decryptWithPassword\<close>, whatever the library computes: what it returns is
  decoded from bytes and holds no unpaired surrogate; with a working cipher the result is
  the one code unit FFFD. And the password D801 decrypts what was encrypted under the
  password D800, because the two derive the same key.
\<close>

theorem decryptWithPassword_roundtrip_counterexample:
  "(\<forall>c p u salt iv.
      decryptWithPassword c (encryptWithPassword c [0xD800] p u salt iv) p u \<noteq> Some [0xD800])
   \<and> decryptWithPassword toy_crypto
        (encryptWithPassword toy_crypto [0xD800] (js ''abcdef'') 42 (replicate 32 0) (replicate 16 0))
        (js ''abcdef'') 42 = Some [0xFFFD]
   \<and> [0xD801] \<noteq> [0xD800 :: 16 word]
   \<and> (\<forall>c s u salt iv.
        decryptWithPassword c (encryptWithPassword c s [0xD800] u salt iv) [0xD801] u
          = decryptWithPassword c (encryptWithPassword c s [0xD800] u salt iv) [0xD800] u)
   \<and> decryptWithPassword toy_crypto
        (encryptWithPassword toy_crypto (js ''secret'') [0xD800] 42 (replicate 32 0) (replicate 16 0))
        [0xD801] 42 = Some (js ''secret'')"
proof -
  have iv: "length (replicate 16 (0::byte)) = IV_LENGTH" by (simp add: IV_LENGTH_def)
  have a: "decryptWithPassword c (encryptWithPassword c [0xD800] p u salt iv) p u \<noteq> Some [0xD800]"
    for c p u salt iv
    using decryptWithPassword_wf [of c "encryptWithPassword c [0xD800] p u salt iv" p u "[0xD800]"]
      lone_surrogates(3) by blast
  have b: "decryptWithPassword toy_crypto
        (encryptWithPassword toy_crypto [0xD800] (js ''abcdef'') 42 (replicate 32 0) (replicate 16 0))
        (js ''abcdef'') 42 = Some [0xFFFD]"
    using decryptWithPassword_same [OF toy_pbkdf2_length toy_gcm_correct iv, of "[0xD800]"]
    by (simp only: lone_surrogates)
  have d: "decryptWithPassword c (encryptWithPassword c s [0xD800] u salt iv) [0xD801] u
          = decryptWithPassword c (encryptWithPassword c s [0xD800] u salt iv) [0xD800] u"
    for c s u salt iv
    by (rule decryptWithPassword_same_encoding) (simp only: lone_surrogates)
  have e: "decryptWithPassword toy_crypto
        (encryptWithPassword toy_crypto (js ''secret'') [0xD800] 42 (replicate 32 0) (replicate 16 0))
        [0xD801] 42 = Some (js ''secret'')"
    unfolding d
    using decryptWithPassword_same [OF toy_pbkdf2_length toy_gcm_correct iv, of "js ''secret''"]
    by (simp only: toWellFormed_js)
  have ne: "[0xD801] \<noteq> [0xD800 :: 16 word]" by simp
  from a b ne d e show ?thesis by blast
qed

text \<open>
  C2, as amended. Decrypting what \<open>encryptWithPassword\<close> produced, with the same
  password and user, returns the secret with each unpaired surrogate replaced by U+FFFD,
  hence the secret itself when it is well formed, for every salt and every 16-byte vector
  the encryption drew; a password with the same UTF-8 encoding as \<open>p\<close> returns the same.
  With a password \<open>p'\<close> of another encoding the result is null whenever PBKDF2 does not
  collide on the encodings of \<open>p:u\<close> and \<open>p':u\<close> and the tag of this ciphertext does not
  verify under the key derived from \<open>p'\<close>.
\<close>

theorem decryptWithPassword_roundtrip:
  "(pbkdf2_length c \<longrightarrow> gcm_correct c \<longrightarrow> length iv = IV_LENGTH
      \<longrightarrow> decryptWithPassword c (encryptWithPassword c s p u salt iv) p u
            = Some (toWellFormed s)
          \<and> (isWellFormed s
               \<longrightarrow> decryptWithPassword c (encryptWithPassword c s p u salt iv) p u = Some s)
          \<and> (toWellFormed p' = toWellFormed p
               \<longrightarrow> decryptWithPassword c (encryptWithPassword c s p u salt iv) p' u
                     = Some (toWellFormed s)))
   \<and> (toWellFormed p' \<noteq> toWellFormed p
      \<longrightarrow> pbkdf2_separates c salt (utf8_encode (p @ js '':'' @ number_toString u))
            (utf8_encode (p' @ js '':'' @ number_toString u))
      \<longrightarrow> gcm_tag_binds c (deriveKeyFromPassword c p u salt)
            (deriveKeyFromPassword c p' u salt) iv (utf8_encode s)
      \<longrightarrow> decryptWithPassword c (encryptWithPassword c s p u salt iv) p' u = None)
   \<and> (isWellFormed p \<longrightarrow> isWellFormed p'
        \<longrightarrow> (toWellFormed p' = toWellFormed p \<longleftrightarrow> p' = p))"
proof -
  have same: "decryptWithPassword c (encryptWithPassword c s p u salt iv) p u
                = Some (toWellFormed s)"
    if "pbkdf2_length c" "gcm_correct c" "length iv = IV_LENGTH"
    using that by (rule decryptWithPassword_same)
  have wf: "decryptWithPassword c (encryptWithPassword c s p u salt iv) p u = Some s"
    if "pbkdf2_length c" "gcm_correct c" "length iv = IV_LENGTH" "isWellFormed s"
    using same [OF that(1-3)] toWellFormed_id [OF that(4)] by simp
  have enc: "decryptWithPassword c (encryptWithPassword c s p u salt iv) p' u
               = Some (toWellFormed s)"
    if "pbkdf2_length c" "gcm_correct c" "length iv = IV_LENGTH"
      "toWellFormed p' = toWellFormed p"
    using same [OF that(1-3)] decryptWithPassword_same_encoding [OF that(4)] by simp
  have other: "decryptWithPassword c (encryptWithPassword c s p u salt iv) p' u = None"
    if "toWellFormed p' \<noteq> toWellFormed p"
      and "pbkdf2_separates c salt (utf8_encode (p @ js '':'' @ number_toString u))
             (utf8_encode (p' @ js '':'' @ number_toString u))"
      and "gcm_tag_binds c (deriveKeyFromPassword c p u salt)
             (deriveKeyFromPassword c p' u salt) iv (utf8_encode s)"
    using that by (rule decryptWithPassword_other)
  have inj: "toWellFormed p' = toWellFormed p \<longleftrightarrow> p' = p"
    if "isWellFormed p" "isWellFormed p'"
    using that by (rule toWellFormed_eq_iff)
  from same wf enc other inj show ?thesis by blast
qed

theorem decryptWithPassword_roundtrip_witness:
  "pbkdf2_length toy_crypto \<and> gcm_correct toy_crypto \<and> length (replicate 16 (0::byte)) = IV_LENGTH
   \<and> isWellFormed (js ''secret'')
   \<and> decryptWithPassword toy_crypto
        (encryptWithPassword toy_crypto (js ''secret'') (js ''abcdef'') 42 (replicate 32 0)
           (replicate 16 0))
        (js ''abcdef'') 42 = Some (js ''secret'')
   \<and> toWellFormed [0xD801] = toWellFormed [0xD800]
   \<and> decryptWithPassword toy_crypto
        (encryptWithPassword toy_crypto (js ''secret'') [0xD800] 42 (replicate 32 0)
           (replicate 16 0))
        [0xD801] 42 = Some (toWellFormed (js ''secret''))
   \<and> isWellFormed (js ''abcdef'') \<and> isWellFormed (js ''abcdeg'')
   \<and> js ''abcdeg'' \<noteq> js ''abcdef''
   \<and> toWellFormed (js ''abcdeg'') \<noteq> toWellFormed (js ''abcdef'')
   \<and> pbkdf2_separates toy_crypto (replicate 32 0)
        (utf8_encode (js ''abcdef'' @ js '':'' @ number_toString 42))
        (utf8_encode (js ''abcdeg'' @ js '':'' @ number_toString 42))
   \<and> gcm_tag_binds toy_crypto
        (deriveKeyFromPassword toy_crypto (js ''abcdef'') 42 (replicate 32 0))
        (deriveKeyFromPassword toy_crypto (js ''abcdeg'') 42 (replicate 32 0))
        (replicate 16 0) (utf8_encode (js ''secret''))
   \<and> decryptWithPassword toy_crypto
        (encryptWithPassword toy_crypto (js ''secret'') (js ''abcdef'') 42 (replicate 32 0)
           (replicate 16 0))
        (js ''abcdeg'') 42 = None"
proof -
  have iv: "length (replicate 16 (0::byte)) = IV_LENGTH" by (simp add: IV_LENGTH_def)
  have ws: "isWellFormed (js ''secret'')" by (rule isWellFormed_js)
  have w: "isWellFormed (js ''abcdef'')" "isWellFormed (js ''abcdeg'')"
    by (rule isWellFormed_js)+
  have ne: "js ''abcdeg'' \<noteq> js ''abcdef''" by (simp add: js_eq_iff)
  have e: "toWellFormed [0xD801] = toWellFormed [0xD800]" by (simp only: lone_surrogates)
  note t = decryptWithPassword_roundtrip [of toy_crypto "replicate 16 0" "js ''secret''"
      "js ''abcdef''" 42 "replicate 32 0" "js ''abcdeg''"]
  from t toy_pbkdf2_length toy_gcm_correct iv ws
  have a: "decryptWithPassword toy_crypto
        (encryptWithPassword toy_crypto (js ''secret'') (js ''abcdef'') 42 (replicate 32 0)
           (replicate 16 0))
        (js ''abcdef'') 42 = Some (js ''secret'')"
    by blast
  from t w ne have d: "toWellFormed (js ''abcdeg'') \<noteq> toWellFormed (js ''abcdef'')" by blast
  note tb = toy_gcm_tag_binds [of "deriveKeyFromPassword toy_crypto (js ''abcdef'') 42 (replicate 32 0)"
      "deriveKeyFromPassword toy_crypto (js ''abcdeg'') 42 (replicate 32 0)"
      "replicate 16 0" "utf8_encode (js ''secret'')"]
  from t d toy_pbkdf2_separates tb
  have b: "decryptWithPassword toy_crypto
        (encryptWithPassword toy_crypto (js ''secret'') (js ''abcdef'') 42 (replicate 32 0)
           (replicate 16 0))
        (js ''abcdeg'') 42 = None"
    by blast
  from decryptWithPassword_roundtrip [of toy_crypto "replicate 16 0" "js ''secret''"
      "[0xD800]" 42 "replicate 32 0" "[0xD801]"] toy_pbkdf2_length toy_gcm_correct iv e
  have s: "decryptWithPassword toy_crypto
        (encryptWithPassword toy_crypto (js ''secret'') [0xD800] 42 (replicate 32 0)
           (replicate 16 0))
        [0xD801] 42 = Some (toWellFormed (js ''secret''))"
    by blast
  show ?thesis
    by (intro conjI)
      (rule toy_pbkdf2_length toy_gcm_correct iv ws a e s w ne d toy_pbkdf2_separates tb b)+
qed

text \<open>
  C6. The claim has every decrypt operation return null on a wrong field count, a tag
  that does not verify or any exception. \<open>decrypt\<close> of \<open>utils/encryption.ts\<close> does
  not: it has no \<open>try\<close>, throws an \<open>Error\<close> of its own on a field count other than
  2, and lets the exception of the cipher reach its caller.
\<close>

theorem decrypt_throws_counterexample:
  "length (split_colon (js ''abc'')) \<noteq> 2
   \<and> decrypt toy_crypto (js ''00'') (js ''abc'') = Inl (Error (js ''Invalid encrypted text format''))
   \<and> length (split_colon (js ''00:00'')) = 2
   \<and> decrypt toy_crypto (js ''00'') (js ''00:00'') = Inl CryptoError"
  by (simp add: decrypt_def cbc_decipher_def toy_crypto_def hex_value_def js_def)

text \<open>
  C6, as amended. \<open>decryptWithPassword\<close>, the session decrypt and \<open>decryptLegacy\<close>
  return null when the field count is not 4, 3 and 2 respectively, and whatever they
  return other than null is the whole output of a decipher whose \<open>update\<close> and \<open>final\<close>
  both returned (so a tag that does not verify, or any throw, gives null, and no result
  is a partial plaintext). \<open>decrypt\<close> throws its own \<open>Error\<close> on a field count other
  than 2, throws the exception of the cipher when \<open>update\<close> or \<open>final\<close> throws on a
  text of two fields, and a value it returns is likewise the whole output of a decipher
  that did not throw.
\<close>

theorem decrypt_fails_closed:
  "(length (split_colon t) \<noteq> 4 \<longrightarrow> decryptWithPassword c t p u = None)
   \<and> (decryptWithPassword c t p u = Some s \<longrightarrow>
        (\<exists>p0 p1 p2 p3 x y. split_colon t = [p0, p1, p2, p3]
           \<and> gcm_update c (deriveKeyFromPassword c p u (from_hex p0)) (from_hex p1) (from_hex p2)
               (from_hex p3) = Some x
           \<and> gcm_final c (deriveKeyFromPassword c p u (from_hex p0)) (from_hex p1) (from_hex p2)
               (from_hex p3) = Some y
           \<and> s = utf8_decode (x @ y)))
   \<and> (length (split_colon t) \<noteq> 3 \<longrightarrow> session_decrypt c k t = None)
   \<and> (session_decrypt c k t = Some s \<longrightarrow>
        (\<exists>p0 p1 p2 x y. split_colon t = [p0, p1, p2]
           \<and> gcm_update c k (from_hex p0) (from_hex p1) (from_hex p2) = Some x
           \<and> gcm_final c k (from_hex p0) (from_hex p1) (from_hex p2) = Some y
           \<and> s = utf8_decode (x @ y)))
   \<and> (length (split_colon t) \<noteq> 2 \<longrightarrow> decryptLegacy c t sk = None)
   \<and> (decryptLegacy c t sk = Some s \<longrightarrow>
        (\<exists>p0 p1 x y. split_colon t = [p0, p1]
           \<and> cbc_update c (from_hex sk) (from_hex p0) (from_hex p1) = Some x
           \<and> cbc_final c (from_hex sk) (from_hex p0) (from_hex p1) = Some y
           \<and> s = utf8_decode (x @ y)))
   \<and> (length (split_colon t) \<noteq> 2 \<longrightarrow>
        decrypt c sk t = Inl (Error (js ''Invalid encrypted text format'')))
   \<and> (split_colon t = [q0, q1]
        \<longrightarrow> cbc_update c (from_hex sk) (from_hex q0) (from_hex q1) = None
            \<or> cbc_final c (from_hex sk) (from_hex q0) (from_hex q1) = None
        \<longrightarrow> decrypt c sk t = Inl CryptoError)
   \<and> (decrypt c sk t = Inr s \<longrightarrow>
        (\<exists>p0 p1 x y. split_colon t = [p0, p1]
           \<and> cbc_update c (from_hex sk) (from_hex p0) (from_hex p1) = Some x
           \<and> cbc_final c (from_hex sk) (from_hex p0) (from_hex p1) = Some y
           \<and> s = utf8_decode (x @ y)))"
proof -
  have a: "length (split_colon t) \<noteq> 4 \<longrightarrow> decryptWithPassword c t p u = None"
    by (auto simp: decryptWithPassword_def split: list.splits)
  have b: "decryptWithPassword c t p u = Some s \<longrightarrow>
        (\<exists>p0 p1 p2 p3 x y. split_colon t = [p0, p1, p2, p3]
           \<and> gcm_update c (deriveKeyFromPassword c p u (from_hex p0)) (from_hex p1) (from_hex p2)
               (from_hex p3) = Some x
           \<and> gcm_final c (deriveKeyFromPassword c p u (from_hex p0)) (from_hex p1) (from_hex p2)
               (from_hex p3) = Some y
           \<and> s = utf8_decode (x @ y))"
    by (auto simp: decryptWithPassword_def gcm_decipher_Some_iff split: list.splits)
  have c: "length (split_colon t) \<noteq> 3 \<longrightarrow> session_decrypt c k t = None"
    by (auto simp: session_decrypt_def split: list.splits)
  have d: "session_decrypt c k t = Some s \<longrightarrow>
        (\<exists>p0 p1 p2 x y. split_colon t = [p0, p1, p2]
           \<and> gcm_update c k (from_hex p0) (from_hex p1) (from_hex p2) = Some x
           \<and> gcm_final c k (from_hex p0) (from_hex p1) (from_hex p2) = Some y
           \<and> s = utf8_decode (x @ y))"
    by (auto simp: session_decrypt_def gcm_decipher_Some_iff split: list.splits)
  have e: "length (split_colon t) \<noteq> 2 \<longrightarrow> decryptLegacy c t sk = None"
    by (auto simp: decryptLegacy_def split: list.splits)
  have f: "decryptLegacy c t sk = Some s \<longrightarrow>
        (\<exists>p0 p1 x y. split_colon t = [p0, p1]
           \<and> cbc_update c (from_hex sk) (from_hex p0) (from_hex p1) = Some x
           \<and> cbc_final c (from_hex sk) (from_hex p0) (from_hex p1) = Some y
           \<and> s = utf8_decode (x @ y))"
    by (auto simp: decryptLegacy_def cbc_decipher_Some_iff split: list.splits)
  have g: "length (split_colon t) \<noteq> 2 \<longrightarrow>
        decrypt c sk t = Inl (Error (js ''Invalid encrypted text format''))"
    by (auto simp: decrypt_def split: list.splits)
  have i: "split_colon t = [q0, q1]
        \<longrightarrow> cbc_update c (from_hex sk) (from_hex q0) (from_hex q1) = None
            \<or> cbc_final c (from_hex sk) (from_hex q0) (from_hex q1) = None
        \<longrightarrow> decrypt c sk t = Inl CryptoError"
    using cbc_decipher_None_iff [of c "from_hex sk" "from_hex q0" q1]
    by (auto simp: decrypt_def)
  have h: "decrypt c sk t = Inr s \<longrightarrow>
        (\<exists>p0 p1 x y. split_colon t = [p0, p1]
           \<and> cbc_update c (from_hex sk) (from_hex p0) (from_hex p1) = Some x
           \<and> cbc_final c (from_hex sk) (from_hex p0) (from_hex p1) = Some y
           \<and> s = utf8_decode (x @ y))"
    by (auto simp: decrypt_def cbc_decipher_Some_iff split: list.splits option.splits)
  show ?thesis by (intro conjI) (rule a b c d e f g i h)+
qed

lemma split_colon_abc: "split_colon (js ''abc'') = [js ''abc'']"
  by (simp add: js_def)

lemma split_colon_00: "split_colon (js ''00:00'') = [js ''00'', js ''00'']"
  by (simp add: js_def)

theorem decrypt_fails_closed_witness:
  "length (split_colon (js ''abc'')) \<noteq> 4
   \<and> decryptWithPassword toy_crypto (js ''abc'') (js ''abcdef'') 42 = None
   \<and> length (split_colon (js ''abc'')) \<noteq> 3
   \<and> session_decrypt toy_crypto (replicate 32 0) (js ''abc'') = None
   \<and> length (split_colon (js ''abc'')) \<noteq> 2
   \<and> decryptLegacy toy_crypto (js ''abc'') (js ''00'') = None
   \<and> decrypt toy_crypto (js ''00'') (js ''abc'') = Inl (Error (js ''Invalid encrypted text format''))
   \<and> split_colon (js ''00:00'') = [js ''00'', js ''00'']
   \<and> cbc_update toy_crypto (from_hex (js ''00'')) (from_hex (js ''00'')) (from_hex (js ''00'')) = None
   \<and> decrypt toy_crypto (js ''00'') (js ''00:00'') = Inl CryptoError
   \<and> decryptWithPassword toy_crypto
        (encryptWithPassword toy_crypto (js ''secret'') (js ''abcdef'') 42 (replicate 32 0) (replicate 16 0))
        (js ''abcdef'') 42 = Some (js ''secret'')
   \<and> length (split_colon
        (encryptWithPassword toy_crypto (js ''secret'') (js ''abcdef'') 42 (replicate 32 0) (replicate 16 0)))
       = 4
   \<and> session_decrypt toy_crypto (replicate 32 0)
        (session_encrypt toy_crypto (replicate 32 0) (replicate 16 0) (js ''secret'')) = Some (js ''secret'')
   \<and> length (split_colon
        (session_encrypt toy_crypto (replicate 32 0) (replicate 16 0) (js ''secret''))) = 3
   \<and> decryptLegacy toy_crypto
        (to_hex (replicate 16 0) @ js '':'' @ to_hex (map (\<lambda>b. b + 1) (utf8_encode (js ''secret''))))
        toy_server_key = Some (js ''secret'')
   \<and> decrypt toy_crypto toy_server_key
        (to_hex (replicate 16 0) @ js '':'' @ to_hex (map (\<lambda>b. b + 1) (utf8_encode (js ''secret''))))
       = Inr (js ''secret'')
   \<and> length (split_colon
        (to_hex (replicate 16 0) @ js '':'' @ to_hex (map (\<lambda>b. b + 1) (utf8_encode (js ''secret''))))) = 2"
proof -
  let ?sk = "toy_server_key"
  let ?B = "encryptWithPassword toy_crypto (js ''secret'') (js ''abcdef'') 42 (replicate 32 0) (replicate 16 0)"
  let ?S = "session_encrypt toy_crypto (replicate 32 0) (replicate 16 0) (js ''secret'')"
  let ?L = "to_hex (replicate 16 0) @ js '':'' @ to_hex (map (\<lambda>b. b + 1) (utf8_encode (js ''secret'')))"
  have n: "length (split_colon (js ''abc'')) = 1" by (simp add: split_colon_abc)
  have n4: "length (split_colon (js ''abc'')) \<noteq> 4" and n3: "length (split_colon (js ''abc'')) \<noteq> 3"
    and n2: "length (split_colon (js ''abc'')) \<noteq> 2"
    using n by simp_all
  note t = decrypt_fails_closed [where t = "js ''abc''" and c = toy_crypto and p = "js ''abcdef''"
        and u = 42 and k = "replicate 32 0" and sk = "js ''00''"]
  from t n4 have s1: "decryptWithPassword toy_crypto (js ''abc'') (js ''abcdef'') 42 = None"
    by blast
  from t n3 have s2: "session_decrypt toy_crypto (replicate 32 0) (js ''abc'') = None"
    by blast
  from t n2 have s3: "decryptLegacy toy_crypto (js ''abc'') (js ''00'') = None"
    and s4: "decrypt toy_crypto (js ''00'') (js ''abc'')
               = Inl (Error (js ''Invalid encrypted text format''))"
    by blast+
  have up: "cbc_update toy_crypto (from_hex (js ''00'')) (from_hex (js ''00'')) (from_hex (js ''00''))
              = None"
    by (simp add: toy_crypto_def js_def hex_value_def)
  from decrypt_fails_closed [where t = "js ''00:00''" and c = toy_crypto and sk = "js ''00''"
      and ?q0.0 = "js ''00''" and ?q1.0 = "js ''00''"] split_colon_00 up
  have thr: "decrypt toy_crypto (js ''00'') (js ''00:00'') = Inl CryptoError"
    by blast
  have b: "decryptWithPassword toy_crypto ?B (js ''abcdef'') 42 = Some (js ''secret'')"
    using decryptWithPassword_same [OF toy_pbkdf2_length toy_gcm_correct, of "replicate 16 0"
        "js ''secret''" "js ''abcdef''" 42 "replicate 32 0"]
    by (simp add: IV_LENGTH_def toWellFormed_js)
  have b': "length (split_colon ?B) = 4"
    using b decrypt_fails_closed [where t = ?B and c = toy_crypto and p = "js ''abcdef''"
        and u = 42 and s = "js ''secret''"]
    by auto
  have d: "session_decrypt toy_crypto (replicate 32 0) ?S = Some (js ''secret'')"
    using session_decrypt_encrypt [OF toy_gcm_correct, of "replicate 32 0" "replicate 16 0"
        "js ''secret''"]
    by (simp add: IV_LENGTH_def KEY_LENGTH_def toWellFormed_js)
  have d': "length (split_colon ?S) = 3"
    using d decrypt_fails_closed [where t = ?S and c = toy_crypto and k = "replicate 32 0"
        and s = "js ''secret''"]
    by auto
  have iv: "length (replicate 16 (0::byte)) = IV_LENGTH" by (simp add: IV_LENGTH_def)
  have f: "decryptLegacy toy_crypto ?L ?sk = Some (js ''secret'')"
    using decryptLegacy_encrypt [OF toy_cbc_correct toy_server_key_length iv toy_encrypt,
        of "js ''secret''"]
    by (simp only: toWellFormed_js)
  have h: "decrypt toy_crypto ?sk ?L = Inr (js ''secret'')"
    using decrypt_encrypt [OF toy_cbc_correct toy_server_key_length iv toy_encrypt,
        of "js ''secret''"]
    by (simp only: toWellFormed_js)
  have f': "length (split_colon ?L) = 2"
    using h decrypt_fails_closed [where t = ?L and c = toy_crypto and sk = ?sk
        and s = "js ''secret''"]
    by auto
  show ?thesis
    by (intro conjI) (rule n4 s1 n3 s2 n2 s3 s4 split_colon_00 up thr b b' d d' f h f')+
qed

section \<open>Properties of the session manager\<close>

lemma map_of_delete: "map_of (AList.delete k al) k = None"
  by (simp add: delete_conv)

lemma getSession_live:
  "map_of ss uid = Some s \<Longrightarrow> \<not> expiresAt s < now \<Longrightarrow> getSession now uid ss = (Some s, ss)"
  by (simp add: getSession_def)

lemma getSession_expired:
  "map_of ss uid = Some s \<Longrightarrow> expiresAt s < now \<Longrightarrow>
   getSession now uid ss = (None, AList.delete uid ss)"
  by (simp add: getSession_def)

lemma getSession_absent: "map_of ss uid = None \<Longrightarrow> getSession now uid ss = (None, ss)"
  by (simp add: getSession_def)

lemma session_encrypt_not_empty: "session_encrypt c key iv pk \<noteq> []"
  by (simp add: session_encrypt_def js_colon split: prod.splits)

lemma getKeyFromSession_Some:
  assumes "fst (getKeyFromSession c now uid net ss) = Some pk"
  shows "\<exists>s e. map_of ss uid = Some s \<and> \<not> expiresAt s < now \<and> encryptedKeys s net = Some e
           \<and> e \<noteq> [] \<and> session_decrypt c (sessionKey s) e = Some pk"
  using assms
  by (auto simp: getKeyFromSession_def getSession_def split: option.splits if_splits)

lemma getKeyFromSession_live:
  assumes "gcm_correct c" "map_of ss uid = Some s" "\<not> expiresAt s < now"
    and "length (sessionKey s) = KEY_LENGTH" "length iv = IV_LENGTH"
    and "encryptedKeys s net = Some (session_encrypt c (sessionKey s) iv pk)"
  shows "getKeyFromSession c now uid net ss = (Some (toWellFormed pk), ss)"
proof -
  have "session_decrypt c (sessionKey s) (session_encrypt c (sessionKey s) iv pk)
          = Some (toWellFormed pk)"
    by (rule session_decrypt_encrypt [OF assms(1,4,5)])
  with assms(2,3,6) show ?thesis
    by (simp add: getKeyFromSession_def getSession_live session_encrypt_not_empty)
qed

lemma getKeyFromSession_expired:
  assumes "map_of ss uid = Some s" "expiresAt s < now"
  shows "getKeyFromSession c now uid net ss = (None, AList.delete uid ss)"
  using assms by (simp add: getKeyFromSession_def getSession_expired)

lemma getKeyFromSession_absent:
  assumes "map_of ss uid = None"
  shows "getKeyFromSession c now uid net ss = (None, ss)"
  using assms by (simp add: getKeyFromSession_def getSession_absent)

lemma getKeyFromSession_no_key:
  assumes "map_of ss uid = Some s" "\<not> expiresAt s < now" "encryptedKeys s net = None"
  shows "getKeyFromSession c now uid net ss = (None, ss)"
  using assms by (simp add: getKeyFromSession_def getSession_live)


lemma storeKeyInSession_live:
  assumes "map_of ss uid = Some s" "\<not> expiresAt s < now"
  shows "map_of (snd (storeKeyInSession c now iv uid net pk ss)) uid
           = Some (s\<lparr>encryptedKeys := (encryptedKeys s)(net \<mapsto>
                        session_encrypt c (sessionKey s) iv pk)\<rparr>)"
  using assms by (simp add: storeKeyInSession_def getSession_live update_conv)

lemma getPrivateKey_eq:
  "getKeyFromSession c now uid net (session_table st) = (r, session_table st) \<Longrightarrow>
   getPrivateKey c now uid net st = (r, st)"
  by (simp add: getPrivateKey_def)

lemma toy_session_lookup: "map_of (session_table toy_state) 42 = Some toy_session"
  by (simp add: toy_state_def)

lemma toy_session_fields:
  "sessionKey toy_session = replicate 32 0"
  "expiresAt toy_session = 1801000"
  "encryptedKeys toy_session Solana
     = Some (session_encrypt toy_crypto (sessionKey toy_session) (replicate 16 0) (js ''secret''))"
  "encryptedKeys toy_session Base = None"
  by (simp_all add: toy_session_def)

text \<open>
  C5. \<open>getPrivateKey\<close> returns a secret only if the user has a session whose
  \<open>expiresAt\<close> is not before the time of the read and which holds a blob for the chain,
  and the secret is what the session's cipher decrypts that blob to. When the blob is
  what \<open>storeKeyInSession\<close> wrote for a key \<open>k\<close> (the encryption of \<open>k\<close> under the
  session's key), the read of a live session returns \<open>k\<close>, with U+FFFD in the place of
  each unpaired surrogate that the UTF-8 conversion replaced when \<open>k\<close> was stored: it
  returns \<open>k\<close> itself when \<open>k\<close> is well formed, and so after \<open>storeKeyInSession\<close>
  itself. Without a session, or with a session that holds nothing for the chain, the
  result is null and nothing changes; the read of an expired session returns null and
  removes the session, without waiting for the periodic sweep.
\<close>

theorem getPrivateKey_live_session:
  "(fst (getPrivateKey c now uid net st) = Some pk \<longrightarrow>
      (\<exists>s e. map_of (session_table st) uid = Some s \<and> \<not> expiresAt s < now
            \<and> encryptedKeys s net = Some e \<and> e \<noteq> []
            \<and> session_decrypt c (sessionKey s) e = Some pk))
   \<and> (gcm_correct c \<longrightarrow> map_of (session_table st) uid = Some s \<longrightarrow> \<not> expiresAt s < now
        \<longrightarrow> length (sessionKey s) = KEY_LENGTH \<longrightarrow> length iv = IV_LENGTH
        \<longrightarrow> encryptedKeys s net = Some (session_encrypt c (sessionKey s) iv k)
        \<longrightarrow> getPrivateKey c now uid net st = (Some (toWellFormed k), st)
            \<and> (isWellFormed k \<longrightarrow> getPrivateKey c now uid net st = (Some k, st)))
   \<and> (gcm_correct c \<longrightarrow> map_of (session_table st) uid = Some s \<longrightarrow> \<not> expiresAt s < now
        \<longrightarrow> length (sessionKey s) = KEY_LENGTH \<longrightarrow> length iv = IV_LENGTH
        \<longrightarrow> isWellFormed k
        \<longrightarrow> fst (getPrivateKey c now uid net
                   (st\<lparr>session_table :=
                        snd (storeKeyInSession c now iv uid net k (session_table st))\<rparr>))
              = Some k)
   \<and> (map_of (session_table st) uid = None
        \<longrightarrow> getPrivateKey c now uid net st = (None, st))
   \<and> (map_of (session_table st) uid = Some s \<longrightarrow> \<not> expiresAt s < now
        \<longrightarrow> encryptedKeys s net = None
        \<longrightarrow> getPrivateKey c now uid net st = (None, st))
   \<and> (map_of (session_table st) uid = Some s \<longrightarrow> expiresAt s < now
        \<longrightarrow> fst (getPrivateKey c now uid net st) = None
          \<and> map_of (session_table (snd (getPrivateKey c now uid net st))) uid = None)"
proof -
  have a: "fst (getPrivateKey c now uid net st) = Some pk \<longrightarrow>
      (\<exists>s e. map_of (session_table st) uid = Some s \<and> \<not> expiresAt s < now
            \<and> encryptedKeys s net = Some e \<and> e \<noteq> []
            \<and> session_decrypt c (sessionKey s) e = Some pk)"
    using getKeyFromSession_Some [of c now uid net "session_table st" pk]
    by (auto simp: getPrivateKey_def split: prod.splits)
  have b: "getPrivateKey c now uid net st = (Some (toWellFormed k), st)
            \<and> (isWellFormed k \<longrightarrow> getPrivateKey c now uid net st = (Some k, st))"
    if "gcm_correct c" "map_of (session_table st) uid = Some s" "\<not> expiresAt s < now"
      "length (sessionKey s) = KEY_LENGTH" "length iv = IV_LENGTH"
      "encryptedKeys s net = Some (session_encrypt c (sessionKey s) iv k)"
  proof -
    have r: "getPrivateKey c now uid net st = (Some (toWellFormed k), st)"
      by (rule getPrivateKey_eq) (rule getKeyFromSession_live [OF that])
    then show ?thesis by (simp add: toWellFormed_id)
  qed
  have b': "fst (getPrivateKey c now uid net
                   (st\<lparr>session_table :=
                        snd (storeKeyInSession c now iv uid net k (session_table st))\<rparr>))
              = Some k"
    if "gcm_correct c" "map_of (session_table st) uid = Some s" "\<not> expiresAt s < now"
      "length (sessionKey s) = KEY_LENGTH" "length iv = IV_LENGTH" "isWellFormed k"
  proof -
    let ?s' = "s\<lparr>encryptedKeys := (encryptedKeys s)(net \<mapsto>
                        session_encrypt c (sessionKey s) iv k)\<rparr>"
    let ?ss = "snd (storeKeyInSession c now iv uid net k (session_table st))"
    have l: "map_of ?ss uid = Some ?s'" by (rule storeKeyInSession_live [OF that(2,3)])
    have e: "\<not> expiresAt ?s' < now" using that(3) by simp
    have kl: "length (sessionKey ?s') = KEY_LENGTH" using that(4) by simp
    have bl: "encryptedKeys ?s' net = Some (session_encrypt c (sessionKey ?s') iv k)" by simp
    from getKeyFromSession_live [OF that(1) l e kl that(5) bl]
    show ?thesis by (simp add: getPrivateKey_def toWellFormed_id [OF that(6)])
  qed
  have n: "getPrivateKey c now uid net st = (None, st)"
    if "map_of (session_table st) uid = None"
    by (rule getPrivateKey_eq) (rule getKeyFromSession_absent [OF that])
  have m: "getPrivateKey c now uid net st = (None, st)"
    if "map_of (session_table st) uid = Some s" "\<not> expiresAt s < now" "encryptedKeys s net = None"
    by (rule getPrivateKey_eq) (rule getKeyFromSession_no_key [OF that])
  have d: "fst (getPrivateKey c now uid net st) = None
          \<and> map_of (session_table (snd (getPrivateKey c now uid net st))) uid = None"
    if "map_of (session_table st) uid = Some s" "expiresAt s < now"
    using getKeyFromSession_expired [OF that]
    by (simp add: getPrivateKey_def map_of_delete)
  from a b b' n m d show ?thesis by blast
qed

theorem getPrivateKey_live_session_witness:
  "gcm_correct toy_crypto
   \<and> map_of (session_table toy_state) 42 = Some toy_session
   \<and> \<not> expiresAt toy_session < 2000
   \<and> length (sessionKey toy_session) = KEY_LENGTH
   \<and> length (replicate 16 (0::byte)) = IV_LENGTH
   \<and> encryptedKeys toy_session Solana
       = Some (session_encrypt toy_crypto (sessionKey toy_session) (replicate 16 0) (js ''secret''))
   \<and> isWellFormed (js ''secret'')
   \<and> getPrivateKey toy_crypto 2000 42 Solana toy_state = (Some (js ''secret''), toy_state)
   \<and> isWellFormed (js ''another'')
   \<and> fst (getPrivateKey toy_crypto 2000 42 Base
             (toy_state\<lparr>session_table :=
                snd (storeKeyInSession toy_crypto 2000 (replicate 16 0) 42 Base (js ''another'')
                       (session_table toy_state))\<rparr>)) = Some (js ''another'')
   \<and> map_of (session_table toy_state) 7 = None
   \<and> getPrivateKey toy_crypto 2000 7 Solana toy_state = (None, toy_state)
   \<and> encryptedKeys toy_session Base = None
   \<and> getPrivateKey toy_crypto 2000 42 Base toy_state = (None, toy_state)
   \<and> expiresAt toy_session < 1801001
   \<and> fst (getPrivateKey toy_crypto 1801001 42 Solana toy_state) = None
   \<and> map_of (session_table (snd (getPrivateKey toy_crypto 1801001 42 Solana toy_state))) 42 = None"
proof -
  have live: "\<not> expiresAt toy_session < 2000" and dead: "expiresAt toy_session < 1801001"
    by (simp_all add: toy_session_fields)
  have kl: "length (sessionKey toy_session) = KEY_LENGTH"
    by (simp add: toy_session_fields KEY_LENGTH_def)
  have iv: "length (replicate 16 (0::byte)) = IV_LENGTH" by (simp add: IV_LENGTH_def)
  have ws: "isWellFormed (js ''secret'')" and wa: "isWellFormed (js ''another'')"
    by (rule isWellFormed_js)+
  have no: "map_of (session_table toy_state) 7 = None" by (simp add: toy_state_def)
  note t = getPrivateKey_live_session [where c = toy_crypto and st = toy_state
      and s = toy_session and iv = "replicate 16 0"]
  from t [where now = 2000 and uid = 42 and net = Solana and k = "js ''secret''"]
    toy_gcm_correct toy_session_lookup live kl iv toy_session_fields(3) ws
  have a: "getPrivateKey toy_crypto 2000 42 Solana toy_state = (Some (js ''secret''), toy_state)"
    by blast
  from t [where now = 2000 and uid = 42 and net = Base and k = "js ''another''"]
    toy_gcm_correct toy_session_lookup live kl iv wa
  have b: "fst (getPrivateKey toy_crypto 2000 42 Base
             (toy_state\<lparr>session_table :=
                snd (storeKeyInSession toy_crypto 2000 (replicate 16 0) 42 Base (js ''another'')
                       (session_table toy_state))\<rparr>)) = Some (js ''another'')"
    by blast
  from t [where now = 2000 and uid = 7 and net = Solana] no
  have n: "getPrivateKey toy_crypto 2000 7 Solana toy_state = (None, toy_state)"
    by blast
  from t [where now = 2000 and uid = 42 and net = Base] toy_session_lookup live
    toy_session_fields(4)
  have m: "getPrivateKey toy_crypto 2000 42 Base toy_state = (None, toy_state)"
    by blast
  from t [where now = 1801001 and uid = 42 and net = Solana] toy_session_lookup dead
  have d: "fst (getPrivateKey toy_crypto 1801001 42 Solana toy_state) = None"
    "map_of (session_table (snd (getPrivateKey toy_crypto 1801001 42 Solana toy_state))) 42 = None"
    by blast+
  show ?thesis
    by (intro conjI)
      (rule toy_gcm_correct toy_session_lookup live kl iv toy_session_fields(3) ws a wa b no n
        toy_session_fields(4) m dead d)+
qed

section \<open>Properties of the custody service\<close>

subsection \<open>Lockout\<close>

lemma max_time_ge: "t \<in> set ts \<Longrightarrow> \<exists>m. max_time ts = Some m \<and> t \<le> m"
  by (induction ts) (auto split: option.splits)

lemma nonempty_has_member: "xs \<noteq> [] \<Longrightarrow> \<exists>x. x \<in> set xs"
  by (cases xs) auto

lemma isLockedOut_iff:
  "fst (isLockedOut now st uid) \<longleftrightarrow> getFailedAttemptCount now st uid 15 \<ge> 5"
proof (cases "getFailedAttemptCount now st uid 15 \<ge> 5")
  case False
  then show ?thesis by (simp add: isLockedOut_def)
next
  case True
  let ?recent = "filter (\<lambda>a. attempt_user a = uid \<and> attempt_time a > now - 15 * 60 * 1000
                         \<and> \<not> success a) (login_attempts st)"
  from True have "?recent \<noteq> []"
    by (auto simp: getFailedAttemptCount_def)
  then have "\<exists>a. a \<in> set ?recent" by (rule nonempty_has_member)
  then obtain a where a: "a \<in> set ?recent" ..
  then have "attempt_time a \<in> set (map attempt_time
      (filter (\<lambda>a. attempt_user a = uid \<and> \<not> success a) (login_attempts st)))"
    by auto
  from max_time_ge [OF this] obtain m where
    m: "max_time (map attempt_time
          (filter (\<lambda>a. attempt_user a = uid \<and> \<not> success a) (login_attempts st))) = Some m"
    and le: "attempt_time a \<le> m" by blast
  from a have "attempt_time a > now - 15 * 60 * 1000" by simp
  with le have "now < m + 15 * 60 * 1000" by simp
  with True m show ?thesis by (simp add: isLockedOut_def Let_def)
qed

lemma unlock_locked_out:
  assumes "getFailedAttemptCount now st uid 15 \<ge> 5"
  shows "\<exists>msg mins. unlock c serverKey now key ivs uid password st = Inr (Rejected msg mins, st)"
proof -
  from assms have "fst (isLockedOut now st uid)" by (simp add: isLockedOut_iff)
  then show ?thesis
    by (cases "isLockedOut now st uid") (auto simp: unlock_def)
qed

lemma lockout_scenario_attempts:
  "login_attempts (lockout_scenario c password salt) =
     [\<lparr>attempt_user = 42, attempt_time = 1700000000000, success = False\<rparr>,
      \<lparr>attempt_user = 42, attempt_time = 1700000060000, success = False\<rparr>,
      \<lparr>attempt_user = 42, attempt_time = 1700000120000, success = False\<rparr>,
      \<lparr>attempt_user = 42, attempt_time = 1700000180000, success = False\<rparr>,
      \<lparr>attempt_user = 42, attempt_time = 1700000240000, success = False\<rparr>]"
  by (simp add: lockout_scenario_def recordLoginAttempt_def)

lemma lockout_scenario_security:
  "user_security (lockout_scenario c password salt) 42 =
     Some \<lparr> passwordHash = hashPassword c password 42 salt, lastPasswordChange = None \<rparr>"
  "wallets (lockout_scenario c password salt) = Map.empty"
  "session_table (lockout_scenario c password salt) = []"
  by (simp_all add: lockout_scenario_def recordLoginAttempt_def)

text \<open>
  C4. The claim has every unlock fail, once five failures lie in the trailing 15 minutes,
  until 15 minutes after the most recent failure. \<open>isLockedOut\<close> computes that instant
  (\<open>lockUntil\<close>) and reports it, but looks at it only while five failures are still
  inside the trailing window: the lockout ends when the oldest of the five leaves the
  window. With failures at minutes 0 to 4, the account is locked at minute 4 and at
  minute 14.5 (\<open>unlockIn\<close> is 5 minutes), yet at minute 16, three minutes before
  \<open>lockUntil\<close>, it is not locked, and \<open>unlock\<close> with the right password creates a
  session.
\<close>

theorem unlock_before_lockout_elapsed:
  "isLockedOut 1700000240000 (lockout_scenario c password salt) 42 = (True, 15)
   \<and> isLockedOut 1700000870000 (lockout_scenario c password salt) 42 = (True, 5)
   \<and> (1700000960000 :: int) < 1700000240000 + 15 * 60 * 1000
   \<and> isLockedOut 1700000960000 (lockout_scenario c password salt) 42 = (False, 0)
   \<and> (case unlock c serverKey 1700000960000 key ivs 42 password (lockout_scenario c password salt) of
         Inr (Unlocked, st') \<Rightarrow> map_of (session_table st') 42 \<noteq> None
       | _ \<Rightarrow> False)"
proof -
  have l: "isLockedOut 1700000240000 (lockout_scenario c password salt) 42 = (True, 15)"
    "isLockedOut 1700000870000 (lockout_scenario c password salt) 42 = (True, 5)"
    "isLockedOut 1700000960000 (lockout_scenario c password salt) 42 = (False, 0)"
    by (simp_all add: isLockedOut_def getFailedAttemptCount_def lockout_scenario_attempts)
  have u: "(case unlock c serverKey 1700000960000 key ivs 42 password (lockout_scenario c password salt) of
         Inr (Unlocked, st') \<Rightarrow> map_of (session_table st') 42 \<noteq> None
       | _ \<Rightarrow> False)"
    by (simp add: unlock_def l getUserSecurity_def lockout_scenario_security verifyPassword_own_hash
        recordLoginAttempt_def getAllWallets_def List.map_filter_def logSecurityEvent_def
        createSession_def MAX_SESSIONS_def Let_def)
  from l u show ?thesis by simp
qed

subsection \<open>Wallet rows\<close>

lemma decryptPrivateKey_cong:
  "wallets st (uid, net) = wallets st' (uid, net) \<Longrightarrow>
   decryptPrivateKey c serverKey st uid net p = decryptPrivateKey c serverKey st' uid net p"
proof -
  assume eq: "wallets st (uid, net) = wallets st' (uid, net)"
  then have "getWalletEncryptionVersion st uid net = getWalletEncryptionVersion st' uid net"
    by (simp add: getWalletEncryptionVersion_def)
  with eq show ?thesis
    by (simp add: decryptPrivateKey_def getWallet_def split: option.splits)
qed

lemma getAllWallets_distinct: "distinct (map fst (getAllWallets st uid))"
  by (auto simp: getAllWallets_def List.map_filter_def)

lemma getAllWallets_set:
  "(net, w) \<in> set (getAllWallets st uid) \<longleftrightarrow> wallets st (uid, net) = Some w"
  by (cases net) (auto simp: getAllWallets_def List.map_filter_def)

lemma save_fields:
  "user_security (setWalletEncryptionVersion uid net v (saveWallet uid net addr enc st))
     = user_security st"
  "session_table (setWalletEncryptionVersion uid net v (saveWallet uid net addr enc st))
     = session_table st"
  "login_attempts (setWalletEncryptionVersion uid net v (saveWallet uid net addr enc st))
     = login_attempts st"
  by (simp_all add: setWalletEncryptionVersion_def saveWallet_def split: option.splits)

subsection \<open>Migration of a legacy wallet\<close>



lemma wallets_after_save:
  assumes "wallets st (uid, net) = Some w"
  shows "wallets (setWalletEncryptionVersion uid net v (saveWallet uid net addr enc st)) (uid, net)
           = Some (w\<lparr>address := addr, encryptedPrivateKey := enc, encryption_version := Some v\<rparr>)"
  using assms by (simp add: setWalletEncryptionVersion_def saveWallet_def)

lemma wallets_after_save_other:
  assumes "k \<noteq> (uid, net)"
  shows "wallets (setWalletEncryptionVersion uid net v (saveWallet uid net addr enc st)) k
           = wallets st k"
  using assms
  by (auto simp: setWalletEncryptionVersion_def saveWallet_def split: option.splits)




text \<open>The loop of \<open>unlock\<close> stores the key of every wallet that decrypts.\<close>

lemma cache_keys_wallets:
  "wallets (cache_keys c serverKey now uid pw ivs ws st) = wallets st"
  by (induction ws arbitrary: st) (auto split: option.splits)









subsection \<open>Change of password\<close>

lemma reencrypt_wallets_fields:
  "user_security (reencrypt_wallets c serverKey uid cur new rnd ws st) = user_security st
   \<and> session_table (reencrypt_wallets c serverKey uid cur new rnd ws st) = session_table st
   \<and> login_attempts (reencrypt_wallets c serverKey uid cur new rnd ws st) = login_attempts st"
  by (induction ws arbitrary: st) (auto simp: save_fields Let_def split: option.splits)

lemma reencrypt_wallets_other:
  "k \<notin> (\<lambda>n. (uid, n)) ` fst ` set ws \<Longrightarrow>
   wallets (reencrypt_wallets c serverKey uid cur new rnd ws st) k = wallets st k"
proof (induction ws arbitrary: st)
  case Nil
  show ?case by simp
next
  case (Cons x ws)
  obtain n w where x: "x = (n, w)" by (cases x)
  from Cons.prems x have k: "k \<noteq> (uid, n)" and rest: "k \<notin> (\<lambda>n. (uid, n)) ` fst ` set ws"
    by auto
  show ?case
    using Cons.IH [OF rest] wallets_after_save_other [OF k]
    by (simp add: x Let_def split: option.splits)
qed

lemma reencrypt_wallets_at:
  assumes "distinct (map fst ws)" and "(net, w) \<in> set ws"
    and "\<forall>(n, w') \<in> set ws. wallets st (uid, n) = Some w'"
  shows "wallets (reencrypt_wallets c serverKey uid cur new rnd ws st) (uid, net) =
           (case decryptPrivateKey c serverKey st uid net cur of
              None \<Rightarrow> Some w
            | Some pk \<Rightarrow>
                if pk = [] then Some w
                else Some (w\<lparr>encryptedPrivateKey :=
                               encryptWithPassword c pk new uid (fst (rnd net)) (snd (rnd net)),
                             encryption_version := Some 2\<rparr>))"
  using assms
proof (induction ws arbitrary: st)
  case Nil
  then show ?case by simp
next
  case (Cons x ws)
  obtain n w0 where x: "x = (n, w0)" by (cases x)
  from Cons.prems(1) x have nfresh: "n \<notin> fst ` set ws" and d: "distinct (map fst ws)"
    by auto
  from Cons.prems(3) x have w0: "wallets st (uid, n) = Some w0"
    and all: "\<forall>(n', w') \<in> set ws. wallets st (uid, n') = Some w'" by auto
  let ?step = "\<lambda>pk. setWalletEncryptionVersion uid n 2
                 (saveWallet uid n (address w0)
                    (encryptWithPassword c pk new uid (fst (rnd n)) (snd (rnd n))) st)"
  show ?case
  proof (cases "net = n")
    case True
    with Cons.prems(2) x nfresh have [simp]: "w = w0" by (auto simp: image_iff)
    have out: "(uid, n) \<notin> (\<lambda>n. (uid, n)) ` fst ` set ws" using nfresh by auto
    show ?thesis
      using reencrypt_wallets_other [OF out] w0 wallets_after_save [OF w0]
      by (simp add: x True Let_def split: option.splits)
  next
    case False
    with Cons.prems(2) x have mem: "(net, w) \<in> set ws" by auto
    have keep: "\<forall>(n', w') \<in> set ws. wallets (?step pk) (uid, n') = Some w'" for pk
    proof (clarify)
      fix n' w' assume m: "(n', w') \<in> set ws"
      with nfresh have "n' \<noteq> n" by (auto simp: image_iff)
      then have "(uid, n') \<noteq> (uid, n)" by simp
      from wallets_after_save_other [OF this] all m
      show "wallets (?step pk) (uid, n') = Some w'" by auto
    qed
    have same: "decryptPrivateKey c serverKey (?step pk) uid net cur
                  = decryptPrivateKey c serverKey st uid net cur" for pk
    proof (rule decryptPrivateKey_cong)
      from False have "(uid, net) \<noteq> (uid, n)" by simp
      from wallets_after_save_other [OF this]
      show "wallets (?step pk) (uid, net) = wallets st (uid, net)" .
    qed
    show ?thesis
    proof (cases "decryptPrivateKey c serverKey st uid n cur")
      case None
      with Cons.IH [OF d mem all] show ?thesis by (simp add: x)
    next
      case (Some pk)
      show ?thesis
      proof (cases "pk = []")
        case True
        with Some Cons.IH [OF d mem all] show ?thesis by (simp add: x)
      next
        case nonempty: False
        from Cons.IH [OF d mem keep [of pk]] same [of pk] Some nonempty
        show ?thesis by (simp add: x Let_def)
      qed
    qed
  qed
qed

lemma map_of_lockSession: "map_of (lockSession uid ss) uid = None"
  by (simp add: lockSession_def delete_conv)

lemma toy_pbkdf2_separates_foreign:
  "pbkdf2_separates toy_crypto (replicate 32 0)
     (utf8_encode (js ''zzzzzz'' @ js '':'' @ number_toString 42))
     (utf8_encode (js ''abcdef'' @ js '':'' @ number_toString 42))"
  by (simp add: pbkdf2_separates_def toy_crypto_def number_toString_def nat_toString.simps
      js_def byte_of_def KEY_LENGTH_def)

lemma toy_state_foreign_wallets:
  "getWallet toy_state_foreign 42 Solana =
     Some \<lparr> address = (js ''So1''),
            encryptedPrivateKey =
              encryptWithPassword toy_crypto (js ''secret'') (js ''abcdef'') 42 (replicate 32 0)
                (replicate 16 0),
            encryption_version = Some 2 \<rparr>"
  "getWallet toy_state_foreign 42 Base =
     Some \<lparr> address = (js ''0xb''),
            encryptedPrivateKey =
              encryptWithPassword toy_crypto (js ''other'') (js ''zzzzzz'') 42 (replicate 32 0)
                (replicate 16 0),
            encryption_version = Some 2 \<rparr>"
  "getUserSecurity toy_state_foreign 42 =
     Some \<lparr> passwordHash = hashPassword toy_crypto (js ''abcdef'') 42 (replicate 32 0),
            lastPasswordChange = None \<rparr>"
  by (simp_all add: toy_state_foreign_def toy_state_def getWallet_def getUserSecurity_def)

lemma toy_state_foreign_decrypt:
  "decryptPrivateKey toy_crypto toy_server_key toy_state_foreign 42 Solana (js ''abcdef'')
     = Some (js ''secret'')"
  "decryptPrivateKey toy_crypto toy_server_key toy_state_foreign 42 Base (js ''abcdef'') = None"
proof -
  have iv: "length (replicate 16 (0::byte)) = IV_LENGTH" by (simp add: IV_LENGTH_def)
  show "decryptPrivateKey toy_crypto toy_server_key toy_state_foreign 42 Solana (js ''abcdef'')
          = Some (js ''secret'')"
    using toy_state_foreign_wallets(1)
      decryptWithPassword_same [OF toy_pbkdf2_length toy_gcm_correct iv]
    by (simp add: decryptPrivateKey_def not_isLegacyFormat_encryptWithPassword toWellFormed_js)
  have "toWellFormed (js ''abcdef'') \<noteq> toWellFormed (js ''zzzzzz'')"
    by (simp add: toWellFormed_js js_eq_iff)
  from decryptWithPassword_other [OF this toy_pbkdf2_separates_foreign toy_gcm_tag_binds]
  show "decryptPrivateKey toy_crypto toy_server_key toy_state_foreign 42 Base (js ''abcdef'') = None"
    using toy_state_foreign_wallets(2)
    by (simp add: decryptPrivateKey_def not_isLegacyFormat_encryptWithPassword)
qed

text \<open>
  C9. Called with the current password and a new password of at least 6 characters (6
  UTF-16 code units, what \<open>newPassword.length\<close> counts), \<open>changePassword\<close> returns
  success, stores the hash of the new password and ends the session, whether or not the
  wallets decrypt. A wallet that does not decrypt under the current password
  (\<open>decryptPrivateKey\<close> returns null) keeps its row, blob and version included; a wallet
  that decrypts (to a key that is not the empty string, which \<open>if (privateKey)\<close> takes for
  a failure) holds afterwards the encryption of that key under the new password, at
  version 2.
\<close>

theorem changePassword_skips_failing_wallets:
  "getUserSecurity st uid = Some security
   \<longrightarrow> verifyPassword c currentPassword uid (passwordHash security) = Inr True
   \<longrightarrow> length newPassword \<ge> 6
   \<longrightarrow> (case changePassword c serverKey now rnd hashSalt uid currentPassword newPassword st of
          Inr (Success, st') \<Rightarrow>
            map_option passwordHash (getUserSecurity st' uid)
              = Some (hashPassword c newPassword uid hashSalt)
            \<and> map_of (session_table st') uid = None
            \<and> (\<forall>net w. getWallet st uid net = Some w \<longrightarrow>
                  (decryptPrivateKey c serverKey st uid net currentPassword = None
                     \<longrightarrow> getWallet st' uid net = Some w)
                  \<and> (\<forall>pk. decryptPrivateKey c serverKey st uid net currentPassword = Some pk
                        \<longrightarrow> pk \<noteq> []
                        \<longrightarrow> getWallet st' uid net
                              = Some (w\<lparr>encryptedPrivateKey :=
                                           encryptWithPassword c pk newPassword uid
                                             (fst (rnd net)) (snd (rnd net)),
                                         encryption_version := Some 2\<rparr>)))
        | _ \<Rightarrow> False)"
proof (intro impI)
  assume sec: "getUserSecurity st uid = Some security"
    and ok: "verifyPassword c currentPassword uid (passwordHash security) = Inr True"
    and len: "length newPassword \<ge> 6"
  let ?st1 = "reencrypt_wallets c serverKey uid currentPassword newPassword rnd
                (getAllWallets st uid) st"
  let ?st2 = "updateUserSecurity_passwordHash now uid (hashPassword c newPassword uid hashSalt) ?st1"
  let ?st3 = "logSecurityEvent uid (js ''password_changed'') None ?st2"
  let ?st4 = "?st3\<lparr>session_table := lockSession uid (session_table ?st3)\<rparr>"
  have res: "changePassword c serverKey now rnd hashSalt uid currentPassword newPassword st
               = Inr (Success, ?st4)"
    using sec ok len by (simp add: changePassword_def Let_def)
  have us: "user_security ?st1 uid = Some security"
    using sec by (simp add: reencrypt_wallets_fields getUserSecurity_def)
  have h: "map_option passwordHash (getUserSecurity ?st4 uid)
             = Some (hashPassword c newPassword uid hashSalt)"
    using us by (simp add: getUserSecurity_def logSecurityEvent_def
        updateUserSecurity_passwordHash_def)
  have s: "map_of (session_table ?st4) uid = None"
    by (simp add: map_of_lockSession)
  have w4: "wallets ?st4 = wallets ?st1"
    by (simp add: logSecurityEvent_def updateUserSecurity_passwordHash_def split: option.splits)
  have all: "\<forall>(n, w') \<in> set (getAllWallets st uid). wallets st (uid, n) = Some w'"
    by (auto simp: getAllWallets_set)
  have w: "getWallet ?st4 uid net =
           (case decryptPrivateKey c serverKey st uid net currentPassword of
              None \<Rightarrow> Some w
            | Some pk \<Rightarrow>
                if pk = [] then Some w
                else Some (w\<lparr>encryptedPrivateKey :=
                               encryptWithPassword c pk newPassword uid (fst (rnd net)) (snd (rnd net)),
                             encryption_version := Some 2\<rparr>))"
    if "getWallet st uid net = Some w" for net w
  proof -
    from that have mem: "(net, w) \<in> set (getAllWallets st uid)"
      by (simp add: getAllWallets_set getWallet_def)
    from reencrypt_wallets_at [OF getAllWallets_distinct mem all]
    show ?thesis by (simp add: getWallet_def w4)
  qed
  from h s w show "(case changePassword c serverKey now rnd hashSalt uid currentPassword newPassword st of
          Inr (Success, st') \<Rightarrow>
            map_option passwordHash (getUserSecurity st' uid)
              = Some (hashPassword c newPassword uid hashSalt)
            \<and> map_of (session_table st') uid = None
            \<and> (\<forall>net w. getWallet st uid net = Some w \<longrightarrow>
                  (decryptPrivateKey c serverKey st uid net currentPassword = None
                     \<longrightarrow> getWallet st' uid net = Some w)
                  \<and> (\<forall>pk. decryptPrivateKey c serverKey st uid net currentPassword = Some pk
                        \<longrightarrow> pk \<noteq> []
                        \<longrightarrow> getWallet st' uid net
                              = Some (w\<lparr>encryptedPrivateKey :=
                                           encryptWithPassword c pk newPassword uid
                                             (fst (rnd net)) (snd (rnd net)),
                                         encryption_version := Some 2\<rparr>)))
        | _ \<Rightarrow> False)"
    unfolding res by simp
qed

theorem changePassword_skips_failing_wallets_witness:
  "getUserSecurity toy_state_foreign 42 =
     Some \<lparr> passwordHash = hashPassword toy_crypto (js ''abcdef'') 42 (replicate 32 0),
            lastPasswordChange = None \<rparr>
   \<and> verifyPassword toy_crypto (js ''abcdef'') 42
        (hashPassword toy_crypto (js ''abcdef'') 42 (replicate 32 0)) = Inr True
   \<and> length (js ''uvwxyz'') \<ge> 6
   \<and> decryptPrivateKey toy_crypto toy_server_key toy_state_foreign 42 Base (js ''abcdef'') = None
   \<and> decryptPrivateKey toy_crypto toy_server_key toy_state_foreign 42 Solana (js ''abcdef'')
       = Some (js ''secret'')
   \<and> (case changePassword toy_crypto toy_server_key 1700000000000
              (\<lambda>net. (replicate 32 1, replicate 16 1)) (replicate 32 2) 42 (js ''abcdef'') (js ''uvwxyz'')
              toy_state_foreign of
         Inr (Success, st') \<Rightarrow>
           map_option passwordHash (getUserSecurity st' 42)
             = Some (hashPassword toy_crypto (js ''uvwxyz'') 42 (replicate 32 2))
           \<and> getWallet st' 42 Base = getWallet toy_state_foreign 42 Base
           \<and> getWallet st' 42 Solana =
               Some \<lparr> address = (js ''So1''),
                      encryptedPrivateKey =
                        encryptWithPassword toy_crypto (js ''secret'') (js ''uvwxyz'') 42 (replicate 32 1)
                          (replicate 16 1),
                      encryption_version = Some 2 \<rparr>
       | _ \<Rightarrow> False)"
proof -
  let ?sec = "\<lparr> passwordHash = hashPassword toy_crypto (js ''abcdef'') 42 (replicate 32 0),
            lastPasswordChange = None \<rparr>"
  let ?solana = "\<lparr> address = js ''So1'',
            encryptedPrivateKey =
              encryptWithPassword toy_crypto (js ''secret'') (js ''abcdef'') 42 (replicate 32 0)
                (replicate 16 0),
            encryption_version = Some 2 \<rparr>"
  have v: "verifyPassword toy_crypto (js ''abcdef'') 42 (passwordHash ?sec) = Inr True"
    by (simp add: verifyPassword_own_hash)
  have v': "verifyPassword toy_crypto (js ''abcdef'') 42
        (hashPassword toy_crypto (js ''abcdef'') 42 (replicate 32 0)) = Inr True"
    by (rule verifyPassword_own_hash)
  have l: "length (js ''uvwxyz'') \<ge> 6" by (simp add: length_js)
  have ne: "js ''secret'' \<noteq> []" by (simp add: js_Nil_iff)
  note t = changePassword_skips_failing_wallets [where c = toy_crypto and st = toy_state_foreign
      and uid = 42 and currentPassword = "js ''abcdef''" and newPassword = "js ''uvwxyz''"
      and serverKey = toy_server_key and now = 1700000000000
      and rnd = "\<lambda>net. (replicate 32 1, replicate 16 1)" and hashSalt = "replicate 32 2",
      rule_format, OF toy_state_foreign_wallets(3) v l]
  obtain st' where res: "changePassword toy_crypto toy_server_key 1700000000000
              (\<lambda>net. (replicate 32 1, replicate 16 1)) (replicate 32 2) 42 (js ''abcdef'')
              (js ''uvwxyz'') toy_state_foreign = Inr (Success, st')"
    using t by (auto split: sum.splits prod.splits outcome.splits)
  from t have h: "map_option passwordHash (getUserSecurity st' 42)
             = Some (hashPassword toy_crypto (js ''uvwxyz'') 42 (replicate 32 2))"
    and w: "\<forall>net w. getWallet toy_state_foreign 42 net = Some w \<longrightarrow>
                  (decryptPrivateKey toy_crypto toy_server_key toy_state_foreign 42 net
                     (js ''abcdef'') = None
                     \<longrightarrow> getWallet st' 42 net = Some w)
                  \<and> (\<forall>pk. decryptPrivateKey toy_crypto toy_server_key toy_state_foreign 42 net
                             (js ''abcdef'') = Some pk
                        \<longrightarrow> pk \<noteq> []
                        \<longrightarrow> getWallet st' 42 net
                              = Some (w\<lparr>encryptedPrivateKey :=
                                           encryptWithPassword toy_crypto pk (js ''uvwxyz'') 42
                                             (fst (replicate 32 1, replicate 16 1))
                                             (snd (replicate 32 1, replicate 16 1)),
                                         encryption_version := Some 2\<rparr>))"
    unfolding res by simp_all
  from w toy_state_foreign_wallets(2) toy_state_foreign_decrypt(2)
  have b: "getWallet st' 42 Base = getWallet toy_state_foreign 42 Base" by simp
  from w [rule_format, OF toy_state_foreign_wallets(1), THEN conjunct2, rule_format,
      OF toy_state_foreign_decrypt(1) ne]
  have s: "getWallet st' 42 Solana =
               Some \<lparr> address = js ''So1'',
                      encryptedPrivateKey =
                        encryptWithPassword toy_crypto (js ''secret'') (js ''uvwxyz'') 42
                          (replicate 32 1) (replicate 16 1),
                      encryption_version = Some 2 \<rparr>"
    by simp
  have "(case changePassword toy_crypto toy_server_key 1700000000000
              (\<lambda>net. (replicate 32 1, replicate 16 1)) (replicate 32 2) 42 (js ''abcdef'') (js ''uvwxyz'')
              toy_state_foreign of
         Inr (Success, st') \<Rightarrow>
           map_option passwordHash (getUserSecurity st' 42)
             = Some (hashPassword toy_crypto (js ''uvwxyz'') 42 (replicate 32 2))
           \<and> getWallet st' 42 Base = getWallet toy_state_foreign 42 Base
           \<and> getWallet st' 42 Solana =
               Some \<lparr> address = (js ''So1''),
                      encryptedPrivateKey =
                        encryptWithPassword toy_crypto (js ''secret'') (js ''uvwxyz'') 42 (replicate 32 1)
                          (replicate 16 1),
                      encryption_version = Some 2 \<rparr>
       | _ \<Rightarrow> False)"
    unfolding res using h b s by simp
  then show ?thesis
    by (intro conjI) (rule toy_state_foreign_wallets(3) v' l toy_state_foreign_decrypt)+
qed

end
